theory Spec2Isabelle
  imports Main
begin

section \<open>Text line breaking of the render library (render/objects/text.py)\<close>

text \<open>
  Python strings are sequences of Unicode code points.  A code point is modelled as a
  natural number, so that the non-ASCII members of \<open>Text.MARKS\<close> are single elements, as
  they are in Python.  Pixel widths are Python integers.
\<close>

type_synonym codepoint = nat
type_synonym ustring = "codepoint list"

text \<open>Reading an ASCII literal as a code point sequence; used to write examples.\<close>

definition ustr :: "string \<Rightarrow> ustring" where
  "ustr s = map of_char s"

definition space :: codepoint where
  "space = 32"

definition hyphen :: codepoint where
  "hyphen = 45"

text \<open>\<open>string.ascii_letters\<close>: \<open>a..z\<close> and \<open>A..Z\<close>.\<close>

definition ascii_letters :: "codepoint \<Rightarrow> bool" where
  "ascii_letters c = ((97 \<le> c \<and> c \<le> 122) \<or> (65 \<le> c \<and> c \<le> 90))"

text \<open>
  \<open>Text.MARKS\<close>, in the order of the source literal: fullwidth semicolon, fullwidth colon,
  ideographic full stop, fullwidth comma, fullwidth exclamation mark, fullwidth question mark,
  ideographic comma, \<open>.\<close> \<open>,\<close> \<open>!\<close> \<open>?\<close>, right double quotation mark, right double angle
  bracket, \<open>;\<close> \<open>:\<close>.
\<close>

definition MARKS :: "codepoint list" where
  "MARKS = [65307, 65306, 12290, 65292, 65281, 65311, 12289, 46, 44, 33, 63, 8221, 12299, 59, 58]"

definition is_mark :: "codepoint \<Rightarrow> bool" where
  "is_mark c = (c \<in> set MARKS)"

text \<open>\<open>s.rstrip(" ")\<close> and \<open>s.lstrip(" ")\<close>.\<close>

definition lstrip :: "ustring \<Rightarrow> ustring" where
  "lstrip s = dropWhile (\<lambda>c. c = space) s"

definition rstrip :: "ustring \<Rightarrow> ustring" where
  "rstrip s = rev (dropWhile (\<lambda>c. c = space) (rev s))"

text \<open>
  The two exceptions of the module.  \<open>LayoutError\<close> is the
  \<open>ValueError("Text is too long to fit in the given width")\<close> of \<open>_split_line\<close>;
  \<open>EmptyMaxError\<close> is the \<open>ValueError\<close> that \<open>max\<close> raises on an empty sequence.
\<close>

datatype error = LayoutError | EmptyMaxError

subsection \<open>Rightmost-fit search\<close>

text \<open>
  Modelled from the spec: \<open>render.utils.find_rightmost\<close> is imported by text.py but is not
  among the sources.  The spec describes it as a binary search over a monotonic domain that
  returns the largest \<open>k\<close> whose associated value is at most the budget, or \<open>0\<close>.  Both call
  sites use the result as a count of leading elements that fit: \<open>cuts[cut_bound - 1]\<close> is the
  chosen candidate and \<open>cut_bound == 0\<close> means that none fits, and \<open>bound == len(text)\<close> is
  reachable although the sequence searched is \<open>range(len(text))\<close>.  So \<open>k\<close> ranges over
  \<open>0..len(a)\<close> and the value associated with \<open>k > 0\<close> is \<open>key(a[k-1])\<close>.
\<close>

function bisect :: "'a list \<Rightarrow> int \<Rightarrow> ('a \<Rightarrow> int) \<Rightarrow> nat \<Rightarrow> nat \<Rightarrow> nat" where
  "bisect a x key lo hi =
     (if lo < hi then
        (let mid = (lo + hi) div 2
         in if x < key (a ! mid) then bisect a x key lo mid
            else bisect a x key (mid + 1) hi)
      else lo)"
  by pat_completeness auto
termination
  by (relation "measure (\<lambda>(a, x, key, lo, hi). hi - lo)") auto

definition find_rightmost :: "'a list \<Rightarrow> int \<Rightarrow> ('a \<Rightarrow> int) \<Rightarrow> nat" where
  "find_rightmost a x key = bisect a x key 0 (length a)"

subsection \<open>The word splitter\<close>

text \<open>
  The font enters only through \<open>Text._calculate_width(font, s)\<close>, a parameter
  \<open>m :: ustring \<Rightarrow> int\<close> here; the hyphenation dictionary enters only through
  \<open>cls._dict.iterate(word)\<close>, a parameter \<open>it\<close> giving the (prefix, suffix) pairs.
\<close>

type_synonym measurer = "ustring \<Rightarrow> int"
type_synonym hyphenator = "ustring \<Rightarrow> (ustring \<times> ustring) list"

definition split_word :: "measurer \<Rightarrow> hyphenator \<Rightarrow> ustring \<Rightarrow> int \<Rightarrow> ustring \<times> ustring" where
  "split_word m it word max_width =
     (let cuts = sort_key (\<lambda>k. length (fst k)) (it word);
          cut_bound = find_rightmost [0..<length cuts] max_width
                        (\<lambda>k. m (fst (cuts ! k) @ [hyphen]))
      in if cut_bound = 0 \<or> cuts = [] then ([], word)
         else (fst (cuts ! (cut_bound - 1)) @ [hyphen], snd (cuts ! (cut_bound - 1))))"

subsection \<open>The line splitter\<close>

text \<open>
  Lines 60 to 67 of \<open>_split_line\<close>: the rightmost fit over \<open>range(len(text))\<close> and the
  correction by one.  The result is an integer: it is \<open>-1\<close> when the search returns \<open>0\<close> and
  the empty prefix is measured wider than the budget.
\<close>

definition rightmost_bound :: "measurer \<Rightarrow> int \<Rightarrow> ustring \<Rightarrow> int" where
  "rightmost_bound m max_width text =
     (let bound = find_rightmost [0..<length text] max_width (\<lambda>k. m (take k text))
      in if m (take bound text) > max_width then int bound - 1 else int bound)"

text \<open>
  The backward loop \<open>while prev >= 0 and text[prev] in string.ascii_letters: prev -= 1\<close>
  followed by \<open>prev += 1\<close>.  The argument is \<open>prev + 1\<close>, so that the loop variable stays a
  natural number where Python's reaches \<open>-1\<close>; the result is the value of \<open>prev\<close> after the
  increment.
\<close>

primrec word_start :: "ustring \<Rightarrow> nat \<Rightarrow> nat" where
  "word_start text 0 = 0"
| "word_start text (Suc prev) =
     (if ascii_letters (text ! prev) then word_start text prev else Suc prev)"

text \<open>The forward loop \<open>while next < len(text) and text[next] in string.ascii_letters: next += 1\<close>.\<close>

function word_end :: "ustring \<Rightarrow> nat \<Rightarrow> nat" where
  "word_end text nxt =
     (if nxt < length text \<and> ascii_letters (text ! nxt) then word_end text (nxt + 1) else nxt)"
  by pat_completeness auto
termination
  by (relation "measure (\<lambda>(text, nxt). length text - nxt)") auto

text \<open>
  Lines 75 to 100: the word boundary.  Either the bound is kept or moved to the start of
  the word, or the hyphenation cut returns at once with the first line and the text that
  the recursive call receives.
\<close>

datatype boundary = Bound nat | Hyphenated ustring ustring

definition letter_boundary ::
  "measurer \<Rightarrow> hyphenator \<Rightarrow> int \<Rightarrow> bool \<Rightarrow> ustring \<Rightarrow> nat \<Rightarrow> boundary" where
  "letter_boundary m it max_width hyphenation text bound =
     (if ascii_letters (text ! bound) then
        (let prev = word_start text (Suc bound);
             nxt = word_end text bound;
             word = drop prev (take nxt text)
         in if length word > 1 then
              (if \<not> hyphenation then Bound prev
               else
                 (let (first, second) = split_word m it word (max_width - m (take prev text))
                  in if first = [] then Bound prev
                     else Hyphenated (take prev text @ first) (second @ drop nxt text)))
            else Bound bound)
      else Bound bound)"

text \<open>Lines 102 to 112: a mark at the bound.\<close>

definition mark_boundary :: "measurer \<Rightarrow> int \<Rightarrow> ustring \<Rightarrow> nat \<Rightarrow> nat" where
  "mark_boundary m max_width text bound =
     (if is_mark (text ! bound) then
        (if m (take (bound + 1) text) \<le> max_width then bound + 1
         else word_start text bound)
      else bound)"

text \<open>Prepending the line of this call to what the recursive call returns or raises.\<close>

definition prepend :: "ustring \<Rightarrow> error + ustring list \<Rightarrow> (error + ustring list) option" where
  "prepend line r = Some (case r of Inl e \<Rightarrow> Inl e | Inr ls \<Rightarrow> Inr (line # ls))"

text \<open>
  \<open>Text._split_line\<close>.  The recursion need not end for an arbitrary hyphenation provider
  (one whose suffix is not shorter than the text consumed), so the result is an option:
  \<open>None\<close> is a call that never returns.
\<close>

partial_function (option) split_line ::
  "measurer \<Rightarrow> hyphenator \<Rightarrow> int \<Rightarrow> bool \<Rightarrow> ustring \<Rightarrow> (error + ustring list) option" where
  "split_line m it max_width hyphenation text =
     (if length text = 0 then Some (Inr [])
      else
        (let bound = rightmost_bound m max_width text
         in if bound \<le> 0 then Some (Inl LayoutError)
            else if bound = int (length text) then Some (Inr [text])
            else
              (let original_bound = nat bound
               in case letter_boundary m it max_width hyphenation text (nat bound) of
                    Hyphenated line rest \<Rightarrow>
                      Option.bind (split_line m it max_width hyphenation rest) (prepend line)
                  | Bound b \<Rightarrow>
                      (let b = mark_boundary m max_width text b;
                           b = (if b = 0 then original_bound else b)
                       in Option.bind
                            (split_line m it max_width hyphenation (lstrip (drop b text)))
                            (prepend (rstrip (take b text)))))))"

subsection \<open>The Text layout\<close>

text \<open>
  \<open>str.splitlines()\<close> on code points: a line ends at \<open>\n\<close>, \<open>\r\<close>, \<open>\r\n\<close>, \<open>\v\<close>, \<open>\f\<close>,
  the separators \<open>\x1c\<close>, \<open>\x1d\<close>, \<open>\x1e\<close>, \<open>\x85\<close>, and \<open>U+2028\<close>, \<open>U+2029\<close>; a line break
  at the very end opens no further line.
\<close>

definition linebreak :: "codepoint \<Rightarrow> bool" where
  "linebreak c = (c \<in> set [10, 11, 12, 13, 28, 29, 30, 133, 8232, 8233])"

fun splitlines_from :: "ustring \<Rightarrow> ustring \<Rightarrow> ustring list" where
  "splitlines_from cur [] = (if cur = [] then [] else [cur])"
| "splitlines_from cur [c] = (if linebreak c then [cur] else [cur @ [c]])"
| "splitlines_from cur (c # d # cs) =
     (if c = 13 \<and> d = 10 then cur # splitlines_from [] cs
      else if linebreak c then cur # splitlines_from [] (d # cs)
      else splitlines_from (cur @ [c]) (d # cs))"

definition splitlines :: "ustring \<Rightarrow> ustring list" where
  "splitlines text = splitlines_from [] text"

text \<open>The loop of \<open>Text.cut\<close>: \<open>res\<close> is extended line by line; an exception ends it.\<close>

fun cut_loop ::
  "measurer \<Rightarrow> hyphenator \<Rightarrow> int \<Rightarrow> bool \<Rightarrow> ustring list \<Rightarrow> ustring list
   \<Rightarrow> (error + ustring list) option" where
  "cut_loop m it max_width hyphenation [] res = Some (Inr res)"
| "cut_loop m it max_width hyphenation (line # lines) res =
     (case split_line m it max_width hyphenation line of
        None \<Rightarrow> None
      | Some (Inl e) \<Rightarrow> Some (Inl e)
      | Some (Inr splitted) \<Rightarrow> cut_loop m it max_width hyphenation lines (res @ splitted))"

text \<open>
  \<open>Text.cut\<close>.  \<open>truetype(self.font, self.size)\<close> is the parameter \<open>truetype\<close>, which gives
  the measurer of a font at a size; it is only called when a width budget is configured.
\<close>

definition cut ::
  "(string \<Rightarrow> int \<Rightarrow> measurer) \<Rightarrow> hyphenator \<Rightarrow> string \<Rightarrow> int \<Rightarrow> bool \<Rightarrow> ustring
   \<Rightarrow> int option \<Rightarrow> (error + ustring list) option" where
  "cut truetype it fnt sz hyph text max_width =
     (let lines = splitlines text
      in case max_width of
           None \<Rightarrow> Some (Inr lines)
         | Some w \<Rightarrow> cut_loop (truetype fnt sz) it w hyph lines [])"

datatype alignment = START | CENTER | END

text \<open>A rendered line, \<open>RenderText.of(line, font, size, color).render()\<close>: its pixel size.\<close>

record render_image =
  width :: int
  height :: int

text \<open>The attributes of a \<open>Text\<close>; \<open>size_attr\<close> is \<open>self.size\<close>.\<close>

record 'color text_layout =
  font :: string
  size_attr :: int
  alignment :: alignment
  color :: "'color option"
  spacing :: int
  hyphenation :: bool
  pre_rendered :: "render_image list"

text \<open>
  \<open>Text.__init__\<close>.  The rasterisation of one line is the parameter \<open>render_text\<close>.  The
  constructor passes the box style on to \<open>RenderObject\<close> (not modelled: neither \<open>size\<close> nor
  \<open>max_width\<close> is among its arguments), stores its own arguments and renders the lines that
  \<open>cut\<close> returns.
\<close>

definition Text_init ::
  "(string \<Rightarrow> int \<Rightarrow> measurer) \<Rightarrow> hyphenator
   \<Rightarrow> (ustring \<Rightarrow> string \<Rightarrow> int \<Rightarrow> 'color option \<Rightarrow> render_image)
   \<Rightarrow> ustring \<Rightarrow> string \<Rightarrow> int \<Rightarrow> int option \<Rightarrow> alignment \<Rightarrow> 'color option \<Rightarrow> int \<Rightarrow> bool
   \<Rightarrow> (error + 'color text_layout) option" where
  "Text_init truetype it render_text text fnt sz max_width algn col spc hyph =
     (case cut truetype it fnt sz hyph text max_width of
        None \<Rightarrow> None
      | Some (Inl e) \<Rightarrow> Some (Inl e)
      | Some (Inr lines) \<Rightarrow>
          Some (Inr \<lparr>font = fnt, size_attr = sz, alignment = algn, color = col, spacing = spc,
                     hyphenation = hyph,
                     pre_rendered = map (\<lambda>line. render_text line fnt sz col) lines\<rparr>))"

text \<open>\<open>Text.content_width\<close>: \<open>max\<close> over the rendered widths, which raises on no line.\<close>

definition content_width :: "'color text_layout \<Rightarrow> error + int" where
  "content_width t =
     (case map width (pre_rendered t) of
        [] \<Rightarrow> Inl EmptyMaxError
      | w # ws \<Rightarrow> Inr (fold max ws w))"

definition content_height :: "'color text_layout \<Rightarrow> int" where
  "content_height t =
     (let sp = max 0 (int (length (pre_rendered t)) - 1) * spacing t
      in sum_list (map height (pre_rendered t)) + sp)"

subsection \<open>Collaborators: fonts and hyphenation providers\<close>

text \<open>The width measurer of the spec: the width of a prefix is at most that of the text.\<close>

definition prefix_monotonic :: "measurer \<Rightarrow> bool" where
  "prefix_monotonic m = (\<forall>s k. m (take k s) \<le> m s)"

text \<open>Setting two strings side by side is not wider than the two apart.\<close>

definition subadditive :: "measurer \<Rightarrow> bool" where
  "subadditive m = (\<forall>a b. m (a @ b) \<le> m a + m b)"

text \<open>Every non-empty string has a positive width.\<close>

definition positive_widths :: "measurer \<Rightarrow> bool" where
  "positive_widths m = (\<forall>s. s \<noteq> [] \<longrightarrow> 0 < m s)"

text \<open>
  A hyphenation provider that cuts the word it is given: every candidate is a non-empty
  prefix and the rest of the word.
\<close>

definition cuts_word :: "hyphenator \<Rightarrow> bool" where
  "cuts_word it = (\<forall>w p s. (p, s) \<in> set (it w) \<longrightarrow> p @ s = w \<and> p \<noteq> [])"

text \<open>The fixed-width font of the examples: every code point is \<open>c\<close> pixels wide.\<close>

definition fixed_width :: "int \<Rightarrow> measurer" where
  "fixed_width c s = c * int (length s)"

text \<open>A provider with no candidate for any word, and the provider of the spec's example 3.\<close>

definition no_cuts :: hyphenator where
  "no_cuts w = []"

definition beautiful_cuts :: hyphenator where
  "beautiful_cuts w =
     (if w = ustr ''beautiful''
      then [(ustr ''beauti'', ustr ''ful''), (ustr ''beau'', ustr ''tiful'')] else [])"

text \<open>A font with a width for each code point: the width of a string is the sum.\<close>

definition char_widths :: "(codepoint \<Rightarrow> int) \<Rightarrow> measurer" where
  "char_widths w s = sum_list (map w s)"

text \<open>Widths in which \<open>i\<close> is 5 pixels wide and every other code point 20.\<close>

definition narrow_i :: "codepoint \<Rightarrow> int" where
  "narrow_i c = (if c = 105 then 5 else 20)"

text \<open>
  A font of 10.5 pixels a code point whose measured width is rounded down to whole pixels:
  monotone along prefixes, but two strings of odd length measure one pixel less apart
  than set in one piece.
\<close>

definition half_pixel_width :: measurer where
  "half_pixel_width s = (21 * int (length s)) div 2"

text \<open>A provider that knows the one cut \<open>be-cause\<close>.\<close>

definition because_cuts :: hyphenator where
  "because_cuts w = (if w = ustr ''because'' then [(ustr ''be'', ustr ''cause'')] else [])"

subsection \<open>What the lines of a split cover\<close>

text \<open>
  \<open>reassembles lines text\<close>: the text is the lines in order, where after a line either a run
  of spaces of the text was dropped (a break, which trims them), or the line ends in a
  hyphen that the text does not have at that place (a hyphenation cut).
\<close>

fun reassembles :: "ustring list \<Rightarrow> ustring \<Rightarrow> bool" where
  "reassembles [] text = (\<forall>c \<in> set text. c = space)"
| "reassembles (l # ls) text =
     ((take (length l) text = l \<and>
       (\<exists>j \<in> set [0..<Suc (length text - length l)].
          (\<forall>c \<in> set (take j (drop (length l) text)). c = space) \<and>
          reassembles ls (drop (length l + j) text)))
      \<or> (l \<noteq> [] \<and> last l = hyphen \<and> take (length l - 1) text = butlast l \<and>
          reassembles ls (drop (length l - 1) text)))"

text \<open>The bound at which \<open>_split_line\<close> breaks when it does not hyphenate (lines 102 to 115).\<close>

definition break_bound :: "measurer \<Rightarrow> int \<Rightarrow> ustring \<Rightarrow> nat \<Rightarrow> nat" where
  "break_bound m max_width text b =
     (let b' = mark_boundary m max_width text b
      in if b' = 0 then nat (rightmost_bound m max_width text) else b')"

text \<open>The line of one call in front of the result of the recursive call.\<close>

definition with_line :: "ustring \<Rightarrow> error + ustring list \<Rightarrow> error + ustring list" where
  "with_line line r = (case r of Inl e \<Rightarrow> Inl e | Inr ls \<Rightarrow> Inr (line # ls))"

declare bisect.simps [simp del]
declare word_end.simps [simp del]

section \<open>Properties\<close>

subsection \<open>The rightmost-fit search\<close>

text \<open>What the search returns lies between its limits.\<close>

lemma bisect_bounds: "lo \<le> hi \<Longrightarrow> lo \<le> bisect a x key lo hi \<and> bisect a x key lo hi \<le> hi"
proof (induction a x key lo hi rule: bisect.induct)
  case (1 a x key lo hi)
  show ?case
  proof (cases "lo < hi")
    case False
    with "1.prems" show ?thesis by (simp add: bisect.simps)
  next
    case True
    let ?mid = "(lo + hi) div 2"
    from True have mid: "lo \<le> ?mid" "?mid < hi" by auto
    show ?thesis
    proof (cases "x < key (a ! ?mid)")
      case True
      with \<open>lo < hi\<close> "1.IH"(1)[OF \<open>lo < hi\<close> refl True] mid
      show ?thesis by (subst (1 2) bisect.simps) (simp add: Let_def)
    next
      case False
      with \<open>lo < hi\<close> "1.IH"(2)[OF \<open>lo < hi\<close> refl False] mid
      show ?thesis by (subst (1 2) bisect.simps) (simp add: Let_def)
    qed
  qed
qed

text \<open>The element before the returned position was compared and fits.\<close>

lemma bisect_fits:
  "(0 < lo \<longrightarrow> key (a ! (lo - 1)) \<le> x) \<Longrightarrow> 0 < bisect a x key lo hi
   \<Longrightarrow> key (a ! (bisect a x key lo hi - 1)) \<le> x"
proof (induction a x key lo hi rule: bisect.induct)
  case (1 a x key lo hi)
  show ?case
  proof (cases "lo < hi")
    case False
    with "1.prems" show ?thesis by (simp add: bisect.simps)
  next
    case True
    let ?mid = "(lo + hi) div 2"
    show ?thesis
    proof (cases "x < key (a ! ?mid)")
      case lt: True
      have eq: "bisect a x key lo hi = bisect a x key lo ?mid"
        using True lt by (subst bisect.simps) (simp add: Let_def)
      show ?thesis
        using "1.IH"(1)[OF True refl lt] "1.prems" unfolding eq by simp
    next
      case ge: False
      have eq: "bisect a x key lo hi = bisect a x key (?mid + 1) hi"
        using True ge by (subst bisect.simps) (simp add: Let_def)
      show ?thesis
        using "1.IH"(2)[OF True refl ge] "1.prems" ge unfolding eq by simp
    qed
  qed
qed

text \<open>The element at the returned position, when there is one, was compared and does not fit.\<close>

lemma bisect_exceeds:
  "(hi < length a \<longrightarrow> x < key (a ! hi)) \<Longrightarrow> bisect a x key lo hi < length a
   \<Longrightarrow> lo \<le> hi \<Longrightarrow> x < key (a ! bisect a x key lo hi)"
proof (induction a x key lo hi rule: bisect.induct)
  case (1 a x key lo hi)
  show ?case
  proof (cases "lo < hi")
    case False
    with "1.prems" show ?thesis by (simp add: bisect.simps)
  next
    case True
    let ?mid = "(lo + hi) div 2"
    from True have mid: "lo \<le> ?mid" "?mid < hi" by auto
    show ?thesis
    proof (cases "x < key (a ! ?mid)")
      case lt: True
      have eq: "bisect a x key lo hi = bisect a x key lo ?mid"
        using True lt by (subst bisect.simps) (simp add: Let_def)
      show ?thesis
        using "1.IH"(1)[OF True refl lt] "1.prems" lt mid unfolding eq by simp
    next
      case ge: False
      have eq: "bisect a x key lo hi = bisect a x key (?mid + 1) hi"
        using True ge by (subst bisect.simps) (simp add: Let_def)
      show ?thesis
        using "1.IH"(2)[OF True refl ge] "1.prems" mid unfolding eq by simp
    qed
  qed
qed

lemma find_rightmost_le: "find_rightmost a x key \<le> length a"
  using bisect_bounds[of 0 "length a" a x key] by (simp add: find_rightmost_def)

lemma find_rightmost_fits:
  "0 < find_rightmost a x key \<Longrightarrow> key (a ! (find_rightmost a x key - 1)) \<le> x"
  unfolding find_rightmost_def by (rule bisect_fits) simp_all

lemma find_rightmost_exceeds:
  "find_rightmost a x key < length a \<Longrightarrow> x < key (a ! find_rightmost a x key)"
  unfolding find_rightmost_def by (rule bisect_exceeds) simp_all

text \<open>On a sorted domain every element that fits is before the returned position.\<close>

lemma find_rightmost_sorted:
  assumes "sorted (map key a)" and "i < length a" and "key (a ! i) \<le> x"
  shows "i < find_rightmost a x key"
proof (rule ccontr)
  assume "\<not> i < find_rightmost a x key"
  then have le: "find_rightmost a x key \<le> i" by simp
  with assms(2) have lt: "find_rightmost a x key < length a" by simp
  from assms(1) le assms(2) have "map key a ! find_rightmost a x key \<le> map key a ! i"
    by (simp add: sorted_iff_nth_mono del: nth_map)
  with lt assms(2) have "key (a ! find_rightmost a x key) \<le> key (a ! i)" by simp
  with find_rightmost_exceeds[OF lt] assms(3) show False by simp
qed

text \<open>
  So on a sorted domain the search returns what the spec asks of it: the elements that fit
  are those before the returned position.
\<close>

lemma find_rightmost_largest:
  assumes "sorted (map key a)" and "i < length a"
  shows "key (a ! i) \<le> x \<longleftrightarrow> i < find_rightmost a x key"
proof
  assume "key (a ! i) \<le> x"
  from find_rightmost_sorted[OF assms this] show "i < find_rightmost a x key" .
next
  assume lt: "i < find_rightmost a x key"
  then have pos: "0 < find_rightmost a x key" by simp
  from lt find_rightmost_le[of a x key] have idx: "find_rightmost a x key - 1 < length a"
    by simp
  from lt have "i \<le> find_rightmost a x key - 1" by simp
  with assms(1) idx have "map key a ! i \<le> map key a ! (find_rightmost a x key - 1)"
    by (simp add: sorted_iff_nth_mono del: nth_map)
  with assms(2) idx have "key (a ! i) \<le> key (a ! (find_rightmost a x key - 1))" by simp
  with find_rightmost_fits[OF pos] show "key (a ! i) \<le> x" by simp
qed

subsection \<open>The bound of a line\<close>

lemma rightmost_bound_range:
  "- 1 \<le> rightmost_bound m W text \<and> rightmost_bound m W text \<le> int (length text)"
  using find_rightmost_le[of "[0..<length text]" W "\<lambda>k. m (take k text)"]
  by (simp add: rightmost_bound_def Let_def)

lemma rightmost_bound_fits:
  assumes "0 < rightmost_bound m W text"
  shows "m (take (nat (rightmost_bound m W text)) text) \<le> W"
proof -
  let ?r = "find_rightmost [0..<length text] W (\<lambda>k. m (take k text))"
  have le: "?r \<le> length text"
    using find_rightmost_le[of "[0..<length text]" W "\<lambda>k. m (take k text)"] by simp
  show ?thesis
  proof (cases "m (take ?r text) > W")
    case False
    then show ?thesis by (simp add: rightmost_bound_def Let_def)
  next
    case True
    then have rb: "rightmost_bound m W text = int ?r - 1"
      by (simp add: rightmost_bound_def Let_def)
    with assms have pos: "0 < ?r" by simp
    from find_rightmost_fits[OF pos] pos le have "m (take (?r - 1) text) \<le> W" by simp
    moreover from rb pos have "nat (rightmost_bound m W text) = ?r - 1" by simp
    ultimately show ?thesis by simp
  qed
qed


subsection \<open>Trimming spaces\<close>

lemma lstrip_decomp: "\<exists>sp. s = sp @ lstrip s \<and> (\<forall>c \<in> set sp. c = space)"
proof -
  have "s = takeWhile (\<lambda>c. c = space) s @ lstrip s"
    by (simp add: lstrip_def)
  moreover have "\<forall>c \<in> set (takeWhile (\<lambda>c. c = space) s). c = space"
    by (auto dest: set_takeWhileD)
  ultimately show ?thesis by blast
qed

lemma rstrip_decomp: "\<exists>sp. s = rstrip s @ sp \<and> (\<forall>c \<in> set sp. c = space)"
proof -
  let ?t = "takeWhile (\<lambda>c. c = space) (rev s)"
  have "rstrip s @ rev ?t = rev (?t @ dropWhile (\<lambda>c. c = space) (rev s))"
    by (simp only: rstrip_def rev_append)
  also have "\<dots> = s" by (simp only: takeWhile_dropWhile_id rev_rev_ident)
  finally have "s = rstrip s @ rev ?t" by simp
  moreover have "\<forall>c \<in> set (rev ?t). c = space"
    by (auto dest: set_takeWhileD)
  ultimately show ?thesis by blast
qed

lemma rstrip_prefix: "rstrip s = take (length (rstrip s)) s"
proof -
  from rstrip_decomp[of s] obtain sp where "s = rstrip s @ sp" by blast
  then have "take (length (rstrip s)) s = take (length (rstrip s)) (rstrip s @ sp)" by simp
  then show ?thesis by simp
qed

lemma length_lstrip: "length (lstrip s) \<le> length s"
  by (simp add: lstrip_def length_dropWhile_le)

lemma set_lstrip: "set (lstrip s) \<subseteq> set s"
  using set_dropWhileD by (fastforce simp: lstrip_def)

lemma set_rstrip: "set (rstrip s) \<subseteq> set s"
  using set_dropWhileD by (fastforce simp: rstrip_def)

subsection \<open>Word boundaries\<close>

lemma word_start_le: "word_start text k \<le> k"
  by (induction k) auto

lemma word_end_bounds: "nxt \<le> length text \<Longrightarrow> nxt \<le> word_end text nxt \<and> word_end text nxt \<le> length text"
proof (induction "text" nxt rule: word_end.induct)
  case (1 t nxt)
  show ?case
  proof (cases "nxt < length t \<and> ascii_letters (t ! nxt)")
    case True
    then have "word_end t nxt = word_end t (nxt + 1)"
      by (subst word_end.simps) simp
    with "1.IH"[OF True] True show ?thesis by simp
  next
    case False
    then have "word_end t nxt = nxt" by (subst word_end.simps) auto
    with "1.prems" show ?thesis by simp
  qed
qed

lemma word_end_letter:
  assumes "bound < length text" and "ascii_letters (text ! bound)"
  shows "bound < word_end text bound \<and> word_end text bound \<le> length text"
proof -
  from assms have "word_end text bound = word_end text (bound + 1)"
    by (subst word_end.simps) simp
  with word_end_bounds[of "bound + 1" "text"] assms(1) show ?thesis by simp
qed

lemma is_mark_not_letter: "is_mark c \<Longrightarrow> \<not> ascii_letters c"
  by (auto simp: is_mark_def MARKS_def ascii_letters_def)

lemma word_start_letter: "word_start text k < k \<Longrightarrow> ascii_letters (text ! word_start text k)"
proof (induction k)
  case 0
  then show ?case by simp
next
  case (Suc k)
  show ?case
  proof (cases "ascii_letters (text ! k)")
    case False
    with Suc.prems show ?thesis by simp
  next
    case True
    show ?thesis
    proof (cases "word_start text k < k")
      case lt: True
      with Suc.IH True show ?thesis by simp
    next
      case False
      with word_start_le[of "text" k] have "word_start text k = k" by simp
      with True show ?thesis by simp
    qed
  qed
qed

lemma letter_not_space: "ascii_letters c \<Longrightarrow> c \<noteq> space"
  by (auto simp: ascii_letters_def space_def)

subsection \<open>The word splitter\<close>

text \<open>Either no cut, or a candidate of the provider whose prefix with the hyphen fits.\<close>

lemma split_word_cases:
  assumes "split_word m it word W = (first, second)"
  shows "(first = [] \<and> second = word) \<or>
         (\<exists>p. (p, second) \<in> set (it word) \<and> first = p @ [hyphen] \<and> m (p @ [hyphen]) \<le> W)"
proof -
  let ?cuts = "sort_key (\<lambda>k. length (fst k)) (it word)"
  let ?key = "\<lambda>k. m (fst (?cuts ! k) @ [hyphen])"
  let ?cb = "find_rightmost [0..<length ?cuts] W ?key"
  show ?thesis
  proof (cases "?cb = 0 \<or> ?cuts = []")
    case True
    with assms show ?thesis by (auto simp: split_word_def Let_def)
  next
    case False
    then have pos: "0 < ?cb" by simp
    have le: "?cb \<le> length ?cuts"
      using find_rightmost_le[of "[0..<length ?cuts]" W ?key] by simp
    from pos le have idx: "?cb - 1 < length ?cuts" by simp
    then have mem: "?cuts ! (?cb - 1) \<in> set (it word)"
      using nth_mem[OF idx] by (simp del: length_sort)
    from find_rightmost_fits[OF pos] idx have fit: "?key (?cb - 1) \<le> W" by simp
    from False assms have first: "first = fst (?cuts ! (?cb - 1)) @ [hyphen]"
      and second: "second = snd (?cuts ! (?cb - 1))"
      by (auto simp: split_word_def Let_def)
    from mem have "(fst (?cuts ! (?cb - 1)), second) \<in> set (it word)"
      by (simp add: second)
    with first fit show ?thesis by blast
  qed
qed

subsection \<open>The refinements of the bound\<close>

lemma letter_boundary_Bound:
  assumes "letter_boundary m it W h text bound = Bound b"
  shows "b = bound \<or> (ascii_letters (text ! bound) \<and> b = word_start text bound)"
  using assms
  by (auto simp: letter_boundary_def Let_def split: if_splits prod.splits)

lemma letter_boundary_Bound_le:
  "letter_boundary m it W h text bound = Bound b \<Longrightarrow> b \<le> bound"
  using letter_boundary_Bound[of m it W h "text" bound b] word_start_le[of "text" bound]
  by auto

text \<open>
  A hyphenation cut: the line is the text before the word, a prefix that the provider
  gave and a hyphen; the recursive call receives the provider's suffix and the text after
  the word.
\<close>

lemma letter_boundary_Hyphenated:
  assumes "letter_boundary m it W h text bound = Hyphenated line rest"
    and "bound < length text"
  shows "h \<and> (\<exists>prev nxt p s. prev \<le> bound \<and> bound < nxt \<and> nxt \<le> length text \<and>
           (p, s) \<in> set (it (drop prev (take nxt text))) \<and>
           line = take prev text @ p @ [hyphen] \<and> rest = s @ drop nxt text \<and>
           m (p @ [hyphen]) \<le> W - m (take prev text))"
proof -
  let ?prev = "word_start text (Suc bound)"
  let ?nxt = "word_end text bound"
  let ?word = "drop ?prev (take ?nxt text)"
  let ?sw = "split_word m it ?word (W - m (take ?prev text))"
  from assms(1) have letter: "ascii_letters (text ! bound)" and h: h
    and first: "fst ?sw \<noteq> []"
    and line: "line = take ?prev text @ fst ?sw"
    and rest: "rest = snd ?sw @ drop ?nxt text"
    by (auto simp: letter_boundary_def Let_def split: if_splits prod.splits)
  from letter have "?prev = word_start text bound" by simp
  with word_start_le[of "text" bound] have prev: "?prev \<le> bound" by simp
  from word_end_letter[OF assms(2) letter] have nxt: "bound < ?nxt" "?nxt \<le> length text"
    by simp_all
  from split_word_cases[of m it ?word "W - m (take ?prev text)" "fst ?sw" "snd ?sw"] first
  obtain p where "(p, snd ?sw) \<in> set (it ?word)" "fst ?sw = p @ [hyphen]"
    "m (p @ [hyphen]) \<le> W - m (take ?prev text)"
    by auto
  with prev nxt line rest h show ?thesis by blast
qed

lemma mark_boundary_cases:
  "mark_boundary m W text b = b \<or>
   (is_mark (text ! b) \<and> m (take (b + 1) text) \<le> W \<and> mark_boundary m W text b = b + 1) \<or>
   (is_mark (text ! b) \<and> mark_boundary m W text b = word_start text b)"
  by (simp add: mark_boundary_def)

text \<open>
  The bound at which the line is broken is positive, within the text, and the prefix up to
  it was measured within the budget or is a prefix of one that was.
\<close>

lemma break_bound_range:
  assumes "0 < rightmost_bound m W text" and "rightmost_bound m W text < int (length text)"
    and "letter_boundary m it W h text (nat (rightmost_bound m W text)) = Bound b"
  shows "0 < break_bound m W text b \<and> break_bound m W text b \<le> length text"
proof -
  let ?rb = "nat (rightmost_bound m W text)"
  from letter_boundary_Bound_le[OF assms(3)] have b: "b \<le> ?rb" .
  from assms have rb: "0 < ?rb" "?rb < length text" by simp_all
  from mark_boundary_cases[of m W "text" b] word_start_le[of "text" b] b rb
  have "mark_boundary m W text b \<le> length text" by auto
  with rb show ?thesis by (auto simp: break_bound_def Let_def)
qed

lemma break_bound_fits:
  assumes "0 < rightmost_bound m W text" and "rightmost_bound m W text < int (length text)"
    and "letter_boundary m it W h text (nat (rightmost_bound m W text)) = Bound b"
  shows "break_bound m W text b \<le> nat (rightmost_bound m W text) \<or>
         m (take (break_bound m W text b) text) \<le> W"
proof -
  let ?rb = "nat (rightmost_bound m W text)"
  from letter_boundary_Bound_le[OF assms(3)] have b: "b \<le> ?rb" .
  from mark_boundary_cases[of m W "text" b] word_start_le[of "text" b] b
  show ?thesis by (auto simp: break_bound_def Let_def)
qed

subsection \<open>One call of the line splitter\<close>

lemma split_line_Nil: "split_line m it W h [] = Some (Inr [])"
  by (subst split_line.simps) simp

lemma split_line_fail:
  "text \<noteq> [] \<Longrightarrow> rightmost_bound m W text \<le> 0 \<Longrightarrow> split_line m it W h text = Some (Inl LayoutError)"
  by (subst split_line.simps) simp

lemma split_line_whole:
  "text \<noteq> [] \<Longrightarrow> rightmost_bound m W text = int (length text)
   \<Longrightarrow> split_line m it W h text = Some (Inr [text])"
  by (subst split_line.simps) simp

lemma split_line_hyphenated:
  "text \<noteq> [] \<Longrightarrow> 0 < rightmost_bound m W text \<Longrightarrow> rightmost_bound m W text \<noteq> int (length text)
   \<Longrightarrow> letter_boundary m it W h text (nat (rightmost_bound m W text)) = Hyphenated line rest
   \<Longrightarrow> split_line m it W h text = Option.bind (split_line m it W h rest) (prepend line)"
  by (subst split_line.simps) (simp add: Let_def)

lemma split_line_break:
  "text \<noteq> [] \<Longrightarrow> 0 < rightmost_bound m W text \<Longrightarrow> rightmost_bound m W text \<noteq> int (length text)
   \<Longrightarrow> letter_boundary m it W h text (nat (rightmost_bound m W text)) = Bound b
   \<Longrightarrow> split_line m it W h text =
       Option.bind (split_line m it W h (lstrip (drop (break_bound m W text b) text)))
         (prepend (rstrip (take (break_bound m W text b) text)))"
  by (subst split_line.simps) (simp add: Let_def break_bound_def)

lemma bind_prepend: "Option.bind x (prepend line) = map_option (with_line line) x"
  by (cases x) (simp_all add: prepend_def with_line_def)

lemma bind_prepend_Some:
  "Option.bind x (prepend line) = Some r \<longleftrightarrow> (\<exists>r'. x = Some r' \<and> r = with_line line r')"
  by (cases x) (auto simp: prepend_def with_line_def)

text \<open>
  Induction over the calls of a split that returns: one case for each way in which a call
  ends.  No assumption on the font or on the hyphenation provider is needed.
\<close>

lemma split_line_induct [consumes 1, case_names Nil Fail Whole Hyphenated Break]:
  assumes "split_line m it W h text = Some r"
    and Nil: "P [] (Inr [])"
    and Fail: "\<And>t. t \<noteq> [] \<Longrightarrow> rightmost_bound m W t \<le> 0 \<Longrightarrow> P t (Inl LayoutError)"
    and Whole: "\<And>t. t \<noteq> [] \<Longrightarrow> 0 < rightmost_bound m W t
                 \<Longrightarrow> rightmost_bound m W t = int (length t) \<Longrightarrow> P t (Inr [t])"
    and Hyph: "\<And>t line rest r'. t \<noteq> [] \<Longrightarrow> 0 < rightmost_bound m W t
                 \<Longrightarrow> rightmost_bound m W t < int (length t)
                 \<Longrightarrow> letter_boundary m it W h t (nat (rightmost_bound m W t)) = Hyphenated line rest
                 \<Longrightarrow> P rest r' \<Longrightarrow> P t (with_line line r')"
    and Break: "\<And>t b r'. t \<noteq> [] \<Longrightarrow> 0 < rightmost_bound m W t
                 \<Longrightarrow> rightmost_bound m W t < int (length t)
                 \<Longrightarrow> letter_boundary m it W h t (nat (rightmost_bound m W t)) = Bound b
                 \<Longrightarrow> P (lstrip (drop (break_bound m W t b) t)) r'
                 \<Longrightarrow> P t (with_line (rstrip (take (break_bound m W t b) t)) r')"
  shows "P text r"
proof -
  have "m' = m \<longrightarrow> it' = it \<longrightarrow> W' = W \<longrightarrow> h' = h \<longrightarrow> P t r"
    if "split_line m' it' W' h' t = Some r" for m' it' W' h' t r
  proof (rule split_line.raw_induct
      [where P = "\<lambda>m' it' W' h' t r. m' = m \<longrightarrow> it' = it \<longrightarrow> W' = W \<longrightarrow> h' = h \<longrightarrow> P t r",
        OF _ that], intro impI, goal_cases)
    case (1 sl m' it' W' h' t r)
    note IH = "1"(1)[rule_format, OF _ refl refl refl refl]
    note body = "1"(2)[unfolded "1"(3-6)]
    have range: "rightmost_bound m W t \<le> int (length t)"
      using rightmost_bound_range[of m W t] by simp
    show ?case
    proof (cases "t = []")
      case True
      with body Nil show ?thesis by simp
    next
      case ne: False
      show ?thesis
      proof (cases "rightmost_bound m W t \<le> 0")
        case True
        with body ne Fail[OF ne True] show ?thesis by simp
      next
        case pos: False
        show ?thesis
        proof (cases "rightmost_bound m W t = int (length t)")
          case True
          with body ne pos Whole[OF ne _ True] show ?thesis by simp
        next
          case False
          with range have lt: "rightmost_bound m W t < int (length t)" by simp
          from pos have pos': "0 < rightmost_bound m W t" by simp
          show ?thesis
          proof (cases "letter_boundary m it W h t (nat (rightmost_bound m W t))")
            case (Bound b)
            with body ne pos False
            have "Option.bind (sl m it W h (lstrip (drop (break_bound m W t b) t)))
                    (prepend (rstrip (take (break_bound m W t b) t))) = Some r"
              by (simp add: Let_def break_bound_def)
            then obtain r' where r': "sl m it W h (lstrip (drop (break_bound m W t b) t)) = Some r'"
              and "r = with_line (rstrip (take (break_bound m W t b) t)) r'"
              unfolding bind_prepend_Some by blast
            with Break[OF ne pos' lt Bound IH[OF r']] show ?thesis by simp
          next
            case (Hyphenated line rest)
            with body ne pos False
            have "Option.bind (sl m it W h rest) (prepend line) = Some r"
              by (simp add: Let_def)
            then obtain r' where r': "sl m it W h rest = Some r'" and "r = with_line line r'"
              unfolding bind_prepend_Some by blast
            with Hyph[OF ne pos' lt Hyphenated IH[OF r']] show ?thesis by simp
          qed
        qed
      qed
    qed
  qed
  from this[OF assms(1)] show ?thesis by simp
qed

text \<open>
  With a provider that cuts the word it is given, or with hyphenation disabled, every call
  hands a shorter text to the recursive call; so the splitter returns.
\<close>

lemma hyphenated_rest_shorter:
  assumes "letter_boundary m it W h text bound = Hyphenated line rest"
    and "bound < length text" and "cuts_word it"
  shows "length rest < length text"
proof -
  from letter_boundary_Hyphenated[OF assms(1,2)]
  obtain prev nxt p s where le: "prev \<le> bound" "bound < nxt" "nxt \<le> length text"
    and mem: "(p, s) \<in> set (it (drop prev (take nxt text)))"
    and rest: "rest = s @ drop nxt text" by blast
  from mem assms(3) have ps: "p @ s = drop prev (take nxt text)" "p \<noteq> []"
    by (auto simp: cuts_word_def)
  then have "length p + length s = length (drop prev (take nxt text))" by (metis length_append)
  with le have "length p + length s = nxt - prev" by simp
  with ps(2) le rest show ?thesis by (cases p) auto
qed

lemma split_line_returns:
  assumes "h \<longrightarrow> cuts_word it"
  shows "\<exists>r. split_line m it W h text = Some r"
proof (induction "length text" arbitrary: "text" rule: less_induct)
  case less
  show ?case
  proof (cases "text = []")
    case True
    then show ?thesis by (simp add: split_line_Nil)
  next
    case ne: False
    show ?thesis
    proof (cases "rightmost_bound m W text \<le> 0")
      case True
      with ne show ?thesis by (simp add: split_line_fail)
    next
      case pos: False
      show ?thesis
      proof (cases "rightmost_bound m W text = int (length text)")
        case True
        with ne show ?thesis by (simp add: split_line_whole)
      next
        case False
        with rightmost_bound_range[of m W "text"]
        have lt: "rightmost_bound m W text < int (length text)" by simp
        from pos have pos': "0 < rightmost_bound m W text" by simp
        show ?thesis
        proof (cases "letter_boundary m it W h text (nat (rightmost_bound m W text))")
          case (Bound b)
          let ?b = "break_bound m W text b"
          from break_bound_range[OF pos' lt Bound] have "0 < ?b" "?b \<le> length text" by simp_all
          with length_lstrip[of "drop ?b text"] have "length (lstrip (drop ?b text)) < length text"
            by simp
          from less[OF this] obtain r where "split_line m it W h (lstrip (drop ?b text)) = Some r"
            by blast
          with split_line_break[OF ne pos' False Bound] show ?thesis
            by (simp add: bind_prepend)
        next
          case (Hyphenated line rest)
          from lt pos' have bl: "nat (rightmost_bound m W text) < length text" by simp
          from letter_boundary_Hyphenated[OF Hyphenated bl] assms have "cuts_word it" by simp
          from hyphenated_rest_shorter[OF Hyphenated bl this] less
          obtain r where "split_line m it W h rest = Some r" by blast
          with split_line_hyphenated[OF ne pos' False Hyphenated] show ?thesis
            by (simp add: bind_prepend)
        qed
      qed
    qed
  qed
qed

subsection \<open>Blank physical lines\<close>

lemma cut_loop_blank:
  "\<forall>l \<in> set lines. l = [] \<Longrightarrow> cut_loop m it W h lines res = Some (Inr res)"
  by (induction lines) (simp_all add: split_line_Nil)

text \<open>
  Claim C10.  With a width budget, an empty physical line splits into no line at all, so
  the loop of \<open>cut\<close> passes over a blank physical line without output.  Hence a Text built
  from an input whose physical lines are all empty (the empty string has none) has no
  pre-rendered line, and its \<open>content_width\<close> raises, since \<open>max\<close> has nothing to range over.
\<close>

theorem blank_lines_no_output:
  "split_line m it W h [] = Some (Inr []) \<and>
   cut_loop m it W h ([] # lines) res = cut_loop m it W h lines res \<and>
   splitlines [] = [] \<and>
   ((\<forall>l \<in> set (splitlines text). l = []) \<longrightarrow>
      (\<exists>t. Text_init truetype it render_text text fnt sz (Some W) algn col spc h = Some (Inr t) \<and>
           pre_rendered t = [] \<and> content_width t = Inl EmptyMaxError))"
proof -
  have "Text_init truetype it render_text text fnt sz (Some W) algn col spc h =
          Some (Inr \<lparr>font = fnt, size_attr = sz, alignment = algn, color = col, spacing = spc,
                      hyphenation = h, pre_rendered = []\<rparr>)"
    if "\<forall>l \<in> set (splitlines text). l = []"
    using cut_loop_blank[OF that, of "truetype fnt sz" it W h "[]"]
    by (simp add: Text_init_def cut_def)
  then show ?thesis
    by (simp add: split_line_Nil splitlines_def content_width_def)
qed

theorem blank_lines_no_output_witness:
  "splitlines [10, 10] = [[], []] \<and>
   (\<exists>t. Text_init (\<lambda>f s. fixed_width 10) no_cuts
          (\<lambda>l f s c. \<lparr>width = 10 * int (length l), height = s\<rparr>)
          [10, 10] ''mono'' 12 (Some 45) START (None :: nat option) 0 True = Some (Inr t) \<and>
        pre_rendered t = [] \<and> content_width t = Inl EmptyMaxError)"
proof -
  have blank: "\<forall>l \<in> set (splitlines [10, 10]). l = []"
    by (simp add: splitlines_def linebreak_def)
  have lines: "splitlines [10, 10] = [[], []]"
    by (simp add: splitlines_def linebreak_def)
  from blank blank_lines_no_output[of "fixed_width 10" no_cuts 45 True "[]" "[]" "[10, 10]"
      "\<lambda>f s. fixed_width 10" "\<lambda>l f s c. \<lparr>width = 10 * int (length l), height = s\<rparr>"
      "''mono''" 12 START "None :: nat option" 0]
  have "\<exists>t. Text_init (\<lambda>f s. fixed_width 10) no_cuts
          (\<lambda>l f s c. \<lparr>width = 10 * int (length l), height = s\<rparr>)
          [10, 10] ''mono'' 12 (Some 45) START (None :: nat option) 0 True = Some (Inr t) \<and>
        pre_rendered t = [] \<and> content_width t = Inl EmptyMaxError"
    by blast
  with lines show ?thesis by blast
qed

subsection \<open>Evaluating a split\<close>

text \<open>
  One call that neither fails nor returns the whole text, as a rewrite rule for concrete
  inputs: the conditions are decided by evaluating the bound.
\<close>

lemma split_line_step:
  "text \<noteq> [] \<Longrightarrow> 0 < rightmost_bound m W text \<Longrightarrow> rightmost_bound m W text \<noteq> int (length text)
   \<Longrightarrow> split_line m it W h text =
       (case letter_boundary m it W h text (nat (rightmost_bound m W text)) of
          Hyphenated line rest \<Rightarrow> map_option (with_line line) (split_line m it W h rest)
        | Bound b \<Rightarrow>
            map_option (with_line (rstrip (take (break_bound m W text b) text)))
              (split_line m it W h (lstrip (drop (break_bound m W text b) text))))"
  by (cases "letter_boundary m it W h text (nat (rightmost_bound m W text))")
     (simp_all add: split_line_break split_line_hyphenated bind_prepend)

lemma word_start_unfold:
  "word_start text k =
     (if k = 0 then 0 else if ascii_letters (text ! (k - 1)) then word_start text (k - 1) else k)"
  by (cases k) simp_all

lemmas eval_defs = word_start_unfold rightmost_bound_def find_rightmost_def bisect.simps fixed_width_def Let_def
  letter_boundary_def mark_boundary_def break_bound_def word_end.simps split_word_def
  ascii_letters_def is_mark_def MARKS_def lstrip_def rstrip_def space_def hyphen_def
  no_cuts_def with_line_def

lemmas eval_split = split_line_step split_line_whole split_line_fail split_line_Nil

subsection \<open>Lines within the budget\<close>

lemma with_line_Inr: "with_line line r = Inr lines \<longleftrightarrow> (\<exists>ls. r = Inr ls \<and> lines = line # ls)"
  by (cases r) (auto simp: with_line_def)

lemma prefix_monotonic_take: "prefix_monotonic m \<Longrightarrow> k \<le> j \<Longrightarrow> m (take k s) \<le> m (take j s)"
proof -
  assume mono: "prefix_monotonic m" and "k \<le> j"
  then have "take k s = take k (take j s)" by (simp add: min_def)
  with mono show ?thesis unfolding prefix_monotonic_def by metis
qed

lemma split_line_widths:
  assumes "split_line m it W h text = Some (Inr lines)"
    and mono: "prefix_monotonic m" and sub: "h \<longrightarrow> subadditive m"
  shows "\<forall>l \<in> set lines. m l \<le> W"
proof -
  have "\<forall>lines. r = Inr lines \<longrightarrow> (\<forall>l \<in> set lines. m l \<le> W)"
    if "split_line m it W h text = Some r" for r
    using that
  proof (induction rule: split_line_induct)
    case Nil
    show ?case by simp
  next
    case (Fail t)
    show ?case by simp
  next
    case (Whole t)
    from rightmost_bound_fits[OF Whole(2)] Whole(3) show ?case by simp
  next
    case (Hyphenated t line rest r')
    from Hyphenated(2,3) have "nat (rightmost_bound m W t) < length t" by simp
    from letter_boundary_Hyphenated[OF Hyphenated(4) this]
    obtain prev p where h: h and line: "line = take prev t @ p @ [hyphen]"
      and fit: "m (p @ [hyphen]) \<le> W - m (take prev t)" by blast
    from sub h have "m (take prev t @ p @ [hyphen]) \<le> m (take prev t) + m (p @ [hyphen])"
      unfolding subadditive_def by blast
    with fit line have "m line \<le> W" by simp
    with Hyphenated(5) show ?case by (auto simp: with_line_Inr)
  next
    case (Break t b r')
    let ?b = "break_bound m W t b"
    let ?rb = "nat (rightmost_bound m W t)"
    have "m (take ?b t) \<le> W"
    proof (cases "?b \<le> ?rb")
      case True
      from prefix_monotonic_take[OF mono True] rightmost_bound_fits[OF Break(2)]
      show ?thesis by (meson order_trans)
    next
      case False
      with break_bound_fits[OF Break(2,3,4)] show ?thesis by simp
    qed
    moreover have "m (rstrip (take ?b t)) \<le> m (take ?b t)"
      using mono rstrip_prefix[of "take ?b t"] unfolding prefix_monotonic_def by metis
    ultimately have "m (rstrip (take ?b t)) \<le> W" by simp
    with Break(5) show ?case by (auto simp: with_line_Inr)
  qed
  with assms(1) show ?thesis by simp
qed

lemma cut_loop_widths:
  assumes mono: "prefix_monotonic m" and sub: "h \<longrightarrow> subadditive m"
  shows "cut_loop m it W h lines res = Some (Inr out) \<Longrightarrow> \<forall>l \<in> set res. m l \<le> W
         \<Longrightarrow> \<forall>l \<in> set out. m l \<le> W"
proof (induction lines arbitrary: res)
  case Nil
  then show ?case by simp
next
  case (Cons line lines)
  from Cons.prems(1) obtain splitted where sp: "split_line m it W h line = Some (Inr splitted)"
    and rest: "cut_loop m it W h lines (res @ splitted) = Some (Inr out)"
    by (auto split: option.splits sum.splits)
  from split_line_widths[OF sp mono sub] Cons.prems(2)
  have "\<forall>l \<in> set (res @ splitted). m l \<le> W" by auto
  from Cons.IH[OF rest this] show ?case .
qed

lemma half_pixel_width_monotonic: "prefix_monotonic half_pixel_width"
  by (simp add: prefix_monotonic_def half_pixel_width_def zdiv_mono1)

text \<open>
  Claim C1, as the spec states it, fails for a width measurer that is only monotone along
  prefixes, which is all that the spec asks of it.  At 10.5 pixels a code point, rounded
  down, \<open>is because\<close> under the budget 62 has the bound inside \<open>because\<close>; the text before
  the word measures 31 pixels, the hyphenated prefix \<open>be-\<close> measures 31 pixels and fits the
  31 that remain, but the line \<open>is be-\<close> measures 63 pixels.
\<close>

theorem hyphenated_line_over_budget_counterexample:
  "prefix_monotonic half_pixel_width \<and>
   split_line half_pixel_width because_cuts 62 True (ustr ''is because'') =
     Some (Inr [ustr ''is be-'', ustr ''cause'']) \<and>
   62 < half_pixel_width (ustr ''is be-'')"
  by (simp add: half_pixel_width_monotonic)
     (simp add: ustr_def because_cuts_def half_pixel_width_def eval_split eval_defs)

text \<open>
  Claim C1, amended.  For a width measurer that is monotone along prefixes and, where
  hyphenation is enabled, subadditive (a string set in one piece is not wider than its two
  parts measured apart), every line that the line splitter produces under the budget \<open>W\<close>
  measures at most \<open>W\<close>, and so does every line that \<open>cut\<close> hands to the rasteriser of a
  Text layout; a split that produces no lines has raised LayoutError.  The hyphenation cut
  measures the hyphenated prefix apart from the text before the word, so without
  subadditivity its line can exceed the budget.
\<close>

theorem line_width_bound:
  assumes "prefix_monotonic m" and "h \<longrightarrow> subadditive m"
  shows "(split_line m it W h text = Some (Inr lines) \<longrightarrow> (\<forall>l \<in> set lines. m l \<le> W)) \<and>
         (split_line m it W h text = Some r \<longrightarrow> r = Inl LayoutError \<or> (\<exists>ls. r = Inr ls)) \<and>
         (truetype fnt sz = m \<and> cut truetype it fnt sz h txt (Some W) = Some (Inr out)
            \<longrightarrow> (\<forall>l \<in> set out. m l \<le> W))"
proof (intro conjI impI)
  assume "split_line m it W h text = Some (Inr lines)"
  from split_line_widths[OF this assms] show "\<forall>l \<in> set lines. m l \<le> W" .
next
  assume "split_line m it W h text = Some r"
  then show "r = Inl LayoutError \<or> (\<exists>ls. r = Inr ls)"
    by (induction rule: split_line_induct) (auto simp: with_line_def split: sum.splits)
next
  assume "truetype fnt sz = m \<and> cut truetype it fnt sz h txt (Some W) = Some (Inr out)"
  then have "cut_loop m it W h (splitlines txt) [] = Some (Inr out)"
    by (auto simp: cut_def)
  from cut_loop_widths[OF assms this] show "\<forall>l \<in> set out. m l \<le> W" by simp
qed

subsection \<open>The fixed-width font and the example providers\<close>

lemma fixed_width_monotonic: "0 \<le> c \<Longrightarrow> prefix_monotonic (fixed_width c)"
  by (simp add: prefix_monotonic_def fixed_width_def mult_left_mono)

lemma fixed_width_subadditive: "subadditive (fixed_width c)"
  by (simp add: subadditive_def fixed_width_def distrib_left)

lemma fixed_width_positive: "0 < c \<Longrightarrow> positive_widths (fixed_width c)"
  by (simp add: positive_widths_def fixed_width_def)

lemma no_cuts_cuts_word: "cuts_word no_cuts"
  by (simp add: cuts_word_def no_cuts_def)

lemma beautiful_cuts_cuts_word: "cuts_word beautiful_cuts"
  by (auto simp: cuts_word_def beautiful_cuts_def ustr_def)

lemma split_a_beautiful_day:
  "split_line (fixed_width 10) beautiful_cuts 50 True (ustr ''a beautiful day'') =
     Some (Inr [ustr ''a'', ustr ''beau-'', ustr ''tiful'', ustr ''day''])"
  by (simp add: ustr_def beautiful_cuts_def eval_split eval_defs)

theorem line_width_bound_witness:
  "prefix_monotonic (fixed_width 10) \<and> subadditive (fixed_width 10) \<and>
   split_line (fixed_width 10) beautiful_cuts 50 True (ustr ''a beautiful day'') =
     Some (Inr [ustr ''a'', ustr ''beau-'', ustr ''tiful'', ustr ''day'']) \<and>
   list_all (\<lambda>l. fixed_width 10 l \<le> 50) [ustr ''a'', ustr ''beau-'', ustr ''tiful'', ustr ''day'']"
proof -
  have mono: "prefix_monotonic (fixed_width 10)" by (simp add: fixed_width_monotonic)
  have sub: "subadditive (fixed_width 10)" by (rule fixed_width_subadditive)
  then have sub': "True \<longrightarrow> subadditive (fixed_width 10)" by simp
  from line_width_bound[OF mono sub', of beautiful_cuts 50 "ustr ''a beautiful day''"
      "[ustr ''a'', ustr ''beau-'', ustr ''tiful'', ustr ''day'']"] split_a_beautiful_day
  have "\<forall>l \<in> set [ustr ''a'', ustr ''beau-'', ustr ''tiful'', ustr ''day'']. fixed_width 10 l \<le> 50"
    by blast
  then have "list_all (\<lambda>l. fixed_width 10 l \<le> 50) [ustr ''a'', ustr ''beau-'', ustr ''tiful'', ustr ''day'']"
    by (simp only: list_all_iff)
  with mono sub split_a_beautiful_day show ?thesis by blast
qed

subsection \<open>No hyphen without hyphenation\<close>

lemma split_line_no_hyphenation_subset:
  assumes "split_line m it W False text = Some r"
  shows "\<forall>lines. r = Inr lines \<longrightarrow> (\<forall>l \<in> set lines. set l \<subseteq> set text)"
  using assms
proof (induction rule: split_line_induct)
  case Nil
  show ?case by simp
next
  case (Fail t)
  show ?case by simp
next
  case (Whole t)
  show ?case by simp
next
  case (Hyphenated t line rest r')
  from Hyphenated(2,3) have "nat (rightmost_bound m W t) < length t" by simp
  from letter_boundary_Hyphenated[OF Hyphenated(4) this] show ?case by simp
next
  case (Break t b r')
  let ?b = "break_bound m W t b"
  have line: "set (rstrip (take ?b t)) \<subseteq> set t"
    using set_rstrip[of "take ?b t"] set_take_subset[of ?b t] by blast
  have rest: "set (lstrip (drop ?b t)) \<subseteq> set t"
    using set_lstrip[of "drop ?b t"] set_drop_subset[of ?b t] by blast
  show ?case
  proof (intro allI impI)
    fix lines
    assume "with_line (rstrip (take ?b t)) r' = Inr lines"
    then obtain ls where r': "r' = Inr ls" and lines: "lines = rstrip (take ?b t) # ls"
      by (auto simp: with_line_Inr)
    from Break(5) r' have "\<forall>l \<in> set ls. set l \<subseteq> set (lstrip (drop ?b t))" by simp
    with rest have "\<forall>l \<in> set ls. set l \<subseteq> set t" by blast
    with line lines show "\<forall>l \<in> set lines. set l \<subseteq> set t" by simp
  qed
qed

text \<open>
  Claim C8.  With hyphenation disabled the splitter returns for every text and budget, and
  every line it produces consists of code points of the source text; so a line contains a
  hyphen only if the source text does.  At a letter inside a word of more than one code
  point the bound moves to the start of the word, and no hyphenation cut is made.
\<close>

theorem no_hyphen_without_hyphenation:
  "(\<exists>r. split_line m it W False text = Some r) \<and>
   (\<forall>lines. split_line m it W False text = Some (Inr lines) \<longrightarrow>
      (\<forall>l \<in> set lines. set l \<subseteq> set text \<and> (hyphen \<in> set l \<longrightarrow> hyphen \<in> set text))) \<and>
   letter_boundary m it W False text bound =
     Bound (if ascii_letters (text ! bound) \<and>
               1 < length (drop (word_start text bound) (take (word_end text bound) text))
            then word_start text bound else bound)"
proof (intro conjI)
  show "letter_boundary m it W False text bound =
     Bound (if ascii_letters (text ! bound) \<and>
               1 < length (drop (word_start text bound) (take (word_end text bound) text))
            then word_start text bound else bound)"
    by (simp add: letter_boundary_def Let_def)
next
  show "\<exists>r. split_line m it W False text = Some r"
    by (rule split_line_returns) simp
next
  show "\<forall>lines. split_line m it W False text = Some (Inr lines) \<longrightarrow>
      (\<forall>l \<in> set lines. set l \<subseteq> set text \<and> (hyphen \<in> set l \<longrightarrow> hyphen \<in> set text))"
    using split_line_no_hyphenation_subset[of m it W "text"] by blast
qed

lemma split_a_beautiful_day_plain:
  "split_line (fixed_width 10) beautiful_cuts 80 False (ustr ''a beautiful day'') =
     Some (Inr [ustr ''a'', ustr ''beautifu'', ustr ''l day''])"
  by (simp add: ustr_def beautiful_cuts_def eval_split eval_defs)

theorem no_hyphen_without_hyphenation_witness:
  "split_line (fixed_width 10) beautiful_cuts 80 False (ustr ''a beautiful day'') =
     Some (Inr [ustr ''a'', ustr ''beautifu'', ustr ''l day'']) \<and>
   list_all (\<lambda>l. set l \<subseteq> set (ustr ''a beautiful day''))
     [ustr ''a'', ustr ''beautifu'', ustr ''l day''] \<and>
   hyphen \<notin> set (ustr ''beautifu'')"
proof -
  from no_hyphen_without_hyphenation[of "fixed_width 10" beautiful_cuts 80 "ustr ''a beautiful day''"]
    split_a_beautiful_day_plain
  have "\<forall>l \<in> set [ustr ''a'', ustr ''beautifu'', ustr ''l day''].
          set l \<subseteq> set (ustr ''a beautiful day'')"
    by blast
  then have "list_all (\<lambda>l. set l \<subseteq> set (ustr ''a beautiful day''))
     [ustr ''a'', ustr ''beautifu'', ustr ''l day'']"
    by (simp only: list_all_iff)
  moreover have "hyphen \<notin> set (ustr ''beautifu'')"
    by (simp add: ustr_def hyphen_def)
  ultimately show ?thesis using split_a_beautiful_day_plain by blast
qed

subsection \<open>Termination and the number of lines\<close>

lemma split_line_count:
  assumes "split_line m it W h text = Some r" and "h \<longrightarrow> cuts_word it"
  shows "\<forall>lines. r = Inr lines \<longrightarrow> length lines \<le> length text"
  using assms(1)
proof (induction rule: split_line_induct)
  case Nil
  show ?case by simp
next
  case (Fail t)
  show ?case by simp
next
  case (Whole t)
  then show ?case by (cases t) simp_all
next
  case (Hyphenated t line rest r')
  from Hyphenated(2,3) have bl: "nat (rightmost_bound m W t) < length t" by simp
  from letter_boundary_Hyphenated[OF Hyphenated(4) bl] assms(2) have "cuts_word it" by simp
  from hyphenated_rest_shorter[OF Hyphenated(4) bl this] Hyphenated(5)
  show ?case by (auto simp: with_line_Inr)
next
  case (Break t b r')
  let ?b = "break_bound m W t b"
  from break_bound_range[OF Break(2,3,4)] have "0 < ?b" "?b \<le> length t" by simp_all
  with length_lstrip[of "drop ?b t"] have "length (lstrip (drop ?b t)) < length t" by simp
  with Break(5) show ?case by (auto simp: with_line_Inr)
qed

text \<open>When the first code point alone fits, the bound of the line is positive.\<close>

lemma rightmost_bound_positive:
  assumes "text \<noteq> []" and mono: "prefix_monotonic m" and fit: "m (take 1 text) \<le> W"
  shows "0 < rightmost_bound m W text"
proof -
  let ?a = "[0..<length text]"
  let ?key = "\<lambda>k. m (take k text)"
  let ?r = "find_rightmost ?a W ?key"
  from assms(1) have n: "0 < length text" by simp
  have le: "?r \<le> length text" using find_rightmost_le[of ?a W ?key] by simp
  from mono have "m (take 0 (take 1 text)) \<le> m (take 1 text)"
    unfolding prefix_monotonic_def by blast
  with fit have empty: "m [] \<le> W" by simp
  have r0: "?r \<noteq> 0"
  proof
    assume z: "?r = 0"
    with n have "?r < length ?a" by simp
    from find_rightmost_exceeds[OF this] z n empty show False by simp
  qed
  have r1: "?r = 1 \<Longrightarrow> length text = 1"
  proof (rule ccontr)
    assume one: "?r = 1" and "length text \<noteq> 1"
    with le have lt: "?r < length ?a" by simp
    from find_rightmost_exceeds[OF lt] one lt fit show False by simp
  qed
  show ?thesis
  proof (cases "?r = 1")
    case True
    with r1 fit have "\<not> W < m (take ?r text)" by simp
    with True show ?thesis by (simp add: rightmost_bound_def Let_def)
  next
    case False
    with r0 have "2 \<le> ?r" by simp
    then show ?thesis by (simp add: rightmost_bound_def Let_def)
  qed
qed


text \<open>When every code point of the text fits alone, no call fails.\<close>

lemma split_line_no_error:
  assumes "split_line m it W h text = Some r" and "h \<longrightarrow> cuts_word it"
    and mono: "prefix_monotonic m"
  shows "(\<forall>c \<in> set text. m [c] \<le> W) \<longrightarrow> (\<exists>lines. r = Inr lines)"
  using assms(1)
proof (induction rule: split_line_induct)
  case Nil
  show ?case by simp
next
  case (Fail t)
  show ?case
  proof
    assume all: "\<forall>c \<in> set t. m [c] \<le> W"
    from Fail(1) obtain c cs where t: "t = c # cs" by (cases t) auto
    with all have "m (take 1 t) \<le> W" by simp
    from rightmost_bound_positive[OF Fail(1) mono this] Fail(2)
    show "\<exists>lines. Inl LayoutError = Inr lines" by simp
  qed
next
  case (Whole t)
  show ?case by simp
next
  case (Hyphenated t line rest r')
  from Hyphenated(2,3) have bl: "nat (rightmost_bound m W t) < length t" by simp
  from letter_boundary_Hyphenated[OF Hyphenated(4) bl] assms(2)
  obtain prev nxt p s where cw: "cuts_word it"
    and mem: "(p, s) \<in> set (it (drop prev (take nxt t)))" and rest: "rest = s @ drop nxt t"
    by blast
  from mem cw have "p @ s = drop prev (take nxt t)" by (auto simp: cuts_word_def)
  then have "set s \<subseteq> set (drop prev (take nxt t))" by (metis set_append Un_upper2)
  also have "\<dots> \<subseteq> set t"
    using set_drop_subset[of prev "take nxt t"] set_take_subset[of nxt t] by blast
  finally have "set rest \<subseteq> set t" using rest set_drop_subset[of nxt t] by auto
  with Hyphenated(5) show ?case by (auto simp: with_line_def)
next
  case (Break t b r')
  let ?b = "break_bound m W t b"
  have "set (lstrip (drop ?b t)) \<subseteq> set t"
    using set_lstrip[of "drop ?b t"] set_drop_subset[of ?b t] by blast
  with Break(5) show ?case by (auto simp: with_line_def)
qed

lemma char_widths_monotonic:
  assumes "\<forall>c. 0 \<le> w c"
  shows "prefix_monotonic (char_widths w)"
proof -
  have nonneg: "0 \<le> sum_list (map w s)" for s
    using assms by (induction s) simp_all
  have "sum_list (map w (take k s)) \<le> sum_list (map w s)" for s k
  proof -
    have "sum_list (map w s) = sum_list (map w (take k s @ drop k s))" by simp
    also have "\<dots> = sum_list (map w (take k s)) + sum_list (map w (drop k s))"
      by (simp only: map_append sum_list_append)
    finally show ?thesis using nonneg[of "drop k s"] by simp
  qed
  then show ?thesis by (simp add: prefix_monotonic_def char_widths_def)
qed

text \<open>
  Claim C3, as the spec states it, fails: a budget of the narrowest-unit width is not
  enough to produce lines.  With \<open>i\<close> 5 pixels wide and \<open>W\<close> 20 pixels wide, the text \<open>iW\<close>
  under the budget 5 gets the line \<open>i\<close>, and the call on the remaining \<open>W\<close> raises
  LayoutError; no lines are produced.
\<close>

theorem narrowest_unit_budget_counterexample:
  "prefix_monotonic (char_widths narrow_i) \<and>
   char_widths narrow_i (ustr ''i'') = 5 \<and>
   split_line (char_widths narrow_i) no_cuts 5 False (ustr ''iW'') = Some (Inl LayoutError) \<and>
   split_line (char_widths narrow_i) no_cuts 5 True (ustr ''iW'') = Some (Inl LayoutError)"
  by (simp add: char_widths_monotonic narrow_i_def)
     (simp add: ustr_def char_widths_def narrow_i_def eval_split eval_defs)

text \<open>
  Claim C3, amended.  With hyphenation disabled, or with a hyphenation provider whose
  candidates split the word with a non-empty prefix, the line splitter terminates for
  every text and every budget: it produces lines, no more than the code points of the
  text, or raises LayoutError.  With a width measurer monotone along prefixes it produces
  lines whenever every code point of the text fits the budget alone; the narrowest-unit
  width is not enough.  Where the refinement of the bound gives 0, the unadjusted bound of
  the rightmost-fit step is reused: the line is the text up to that bound.  Every call
  that emits a line hands a strictly shorter text to the recursive call, which is the
  forward progress on every iteration.
\<close>

theorem splitter_terminates:
  assumes "h \<longrightarrow> cuts_word it"
  shows "(\<exists>r. split_line m it W h text = Some r) \<and>
         (\<forall>lines. split_line m it W h text = Some (Inr lines) \<longrightarrow> length lines \<le> length text) \<and>
         (prefix_monotonic m \<and> (\<forall>c \<in> set text. m [c] \<le> W)
            \<longrightarrow> (\<exists>lines. split_line m it W h text = Some (Inr lines))) \<and>
         (text \<noteq> [] \<and> 0 < rightmost_bound m W text \<and>
          rightmost_bound m W text < int (length text) \<and>
          letter_boundary m it W h text (nat (rightmost_bound m W text)) = Bound b \<and>
          mark_boundary m W text b = 0
            \<longrightarrow> split_line m it W h text =
                  map_option (with_line (rstrip (take (nat (rightmost_bound m W text)) text)))
                    (split_line m it W h
                       (lstrip (drop (nat (rightmost_bound m W text)) text)))) \<and>
         (text \<noteq> [] \<and> 0 < rightmost_bound m W text \<and>
          rightmost_bound m W text < int (length text)
            \<longrightarrow> (\<exists>line rest. split_line m it W h text =
                                map_option (with_line line) (split_line m it W h rest) \<and>
                              length rest < length text))"
proof (intro conjI)
  from split_line_returns[OF assms] obtain r where r: "split_line m it W h text = Some r"
    by blast
  then show "\<exists>r. split_line m it W h text = Some r" by blast
  from split_line_count[OF r assms] r
  show "\<forall>lines. split_line m it W h text = Some (Inr lines) \<longrightarrow> length lines \<le> length text"
    by simp
  show "prefix_monotonic m \<and> (\<forall>c \<in> set text. m [c] \<le> W)
          \<longrightarrow> (\<exists>lines. split_line m it W h text = Some (Inr lines))"
    using split_line_no_error[OF r assms] r by auto
  show "text \<noteq> [] \<and> 0 < rightmost_bound m W text \<and>
          rightmost_bound m W text < int (length text) \<and>
          letter_boundary m it W h text (nat (rightmost_bound m W text)) = Bound b \<and>
          mark_boundary m W text b = 0
            \<longrightarrow> split_line m it W h text =
                  map_option (with_line (rstrip (take (nat (rightmost_bound m W text)) text)))
                    (split_line m it W h
                       (lstrip (drop (nat (rightmost_bound m W text)) text)))"
  proof
    assume a: "text \<noteq> [] \<and> 0 < rightmost_bound m W text \<and>
          rightmost_bound m W text < int (length text) \<and>
          letter_boundary m it W h text (nat (rightmost_bound m W text)) = Bound b \<and>
          mark_boundary m W text b = 0"
    then have bb: "break_bound m W text b = nat (rightmost_bound m W text)"
      by (simp add: break_bound_def)
    from a have "rightmost_bound m W text \<noteq> int (length text)" by simp
    with a split_line_break[of "text" m W it h b] show "split_line m it W h text =
                  map_option (with_line (rstrip (take (nat (rightmost_bound m W text)) text)))
                    (split_line m it W h
                       (lstrip (drop (nat (rightmost_bound m W text)) text)))"
      unfolding bind_prepend bb by simp
  qed
  show "text \<noteq> [] \<and> 0 < rightmost_bound m W text \<and>
          rightmost_bound m W text < int (length text)
            \<longrightarrow> (\<exists>line rest. split_line m it W h text =
                                map_option (with_line line) (split_line m it W h rest) \<and>
                              length rest < length text)"
  proof
    assume a: "text \<noteq> [] \<and> 0 < rightmost_bound m W text \<and>
          rightmost_bound m W text < int (length text)"
    then have ne: "text \<noteq> []" and pos: "0 < rightmost_bound m W text"
      and lt: "rightmost_bound m W text < int (length text)" by simp_all
    from lt have neq: "rightmost_bound m W text \<noteq> int (length text)" by simp
    show "\<exists>line rest. split_line m it W h text =
                                map_option (with_line line) (split_line m it W h rest) \<and>
                              length rest < length text"
    proof (cases "letter_boundary m it W h text (nat (rightmost_bound m W text))")
      case (Bound b')
      let ?b = "break_bound m W text b'"
      from break_bound_range[OF pos lt Bound] have "0 < ?b" "?b \<le> length text" by simp_all
      with length_lstrip[of "drop ?b text"] have "length (lstrip (drop ?b text)) < length text"
        by simp
      with split_line_break[OF ne pos neq Bound] show ?thesis
        unfolding bind_prepend by blast
    next
      case (Hyphenated line rest)
      from lt pos have bl: "nat (rightmost_bound m W text) < length text" by simp
      from letter_boundary_Hyphenated[OF Hyphenated bl] assms have "cuts_word it" by simp
      from hyphenated_rest_shorter[OF Hyphenated bl this]
        split_line_hyphenated[OF ne pos neq Hyphenated]
      show ?thesis unfolding bind_prepend by blast
    qed
  qed
qed

theorem splitter_terminates_witness:
  "cuts_word no_cuts \<and>
   rightmost_bound (fixed_width 10) 45 (ustr ''hello'') = 4 \<and>
   letter_boundary (fixed_width 10) no_cuts 45 True (ustr ''hello'') 4 = Bound 0 \<and>
   mark_boundary (fixed_width 10) 45 (ustr ''hello'') 0 = 0 \<and>
   split_line (fixed_width 10) no_cuts 45 True (ustr ''hello'') =
     map_option (with_line (ustr ''hell''))
       (split_line (fixed_width 10) no_cuts 45 True (ustr ''o'')) \<and>
   split_line (fixed_width 10) no_cuts 45 True (ustr ''hello'') =
     Some (Inr [ustr ''hell'', ustr ''o'']) \<and>
   length [ustr ''hell'', ustr ''o''] \<le> length (ustr ''hello'')"
proof -
  have cw: "True \<longrightarrow> cuts_word no_cuts" by (simp add: no_cuts_cuts_word)
  have u: "ustr ''hello'' = [104, 101, 108, 108, 111]" by (simp add: ustr_def)
  have rb: "rightmost_bound (fixed_width 10) 45 [104, 101, 108, 108, 111] = 4"
    by (simp add: eval_defs)
  have lb: "letter_boundary (fixed_width 10) no_cuts 45 True [104, 101, 108, 108, 111] 4 = Bound 0"
    by (simp add: eval_defs)
  have mb: "mark_boundary (fixed_width 10) 45 [104, 101, 108, 108, 111] 0 = 0"
    by (simp add: eval_defs)
  have lines: "split_line (fixed_width 10) no_cuts 45 True [104, 101, 108, 108, 111] =
     Some (Inr [[104, 101, 108, 108], [111]])"
    by (simp add: eval_split eval_defs)
  note inst = splitter_terminates[OF cw, of "fixed_width 10" 45 "[104, 101, 108, 108, 111]" 0]
  from inst rb lb mb
  have guard: "split_line (fixed_width 10) no_cuts 45 True [104, 101, 108, 108, 111] =
     map_option (with_line (rstrip (take 4 [104, 101, 108, 108, 111])))
       (split_line (fixed_width 10) no_cuts 45 True (lstrip (drop 4 [104, 101, 108, 108, 111])))"
    by simp
  from inst lines have count: "length [[104, 101, 108, 108], [111::nat]] \<le> length [104, 101, 108, 108, 111::nat]"
    by blast
  from guard have guard': "split_line (fixed_width 10) no_cuts 45 True [104, 101, 108, 108, 111] =
     map_option (with_line [104, 101, 108, 108])
       (split_line (fixed_width 10) no_cuts 45 True [111])"
    by (simp add: rstrip_def lstrip_def space_def)
  from cw rb lb mb guard' lines count show ?thesis
    unfolding u by (simp add: ustr_def)
qed

subsection \<open>No text is dropped\<close>

lemma reassembles_break:
  assumes "\<forall>c \<in> set sp. c = space" and "reassembles ls rest"
  shows "reassembles (l # ls) (l @ sp @ rest)"
proof -
  have "length sp \<in> set [0..<Suc (length (l @ sp @ rest) - length l)]" by simp
  moreover have "\<forall>c \<in> set (take (length sp) (drop (length l) (l @ sp @ rest))). c = space"
    using assms(1) by simp
  moreover have "reassembles ls (drop (length l + length sp) (l @ sp @ rest))"
    using assms(2) by simp
  ultimately have "\<exists>j \<in> set [0..<Suc (length (l @ sp @ rest) - length l)].
      (\<forall>c \<in> set (take j (drop (length l) (l @ sp @ rest))). c = space) \<and>
      reassembles ls (drop (length l + j) (l @ sp @ rest))"
    by blast
  then show ?thesis by simp
qed

lemma reassembles_hyphen:
  assumes "reassembles ls rest"
  shows "reassembles ((x @ [hyphen]) # ls) (x @ rest)"
  using assms by simp

lemma split_line_reassembles:
  assumes "split_line m it W h text = Some r" and "h \<longrightarrow> cuts_word it"
  shows "\<forall>lines. r = Inr lines \<longrightarrow> reassembles lines text"
  using assms(1)
proof (induction rule: split_line_induct)
  case Nil
  show ?case by simp
next
  case (Fail t)
  show ?case by simp
next
  case (Whole t)
  from reassembles_break[of "[]" "[]" "[]" t] show ?case by simp
next
  case (Hyphenated t line rest r')
  from Hyphenated(2,3) have bl: "nat (rightmost_bound m W t) < length t" by simp
  from letter_boundary_Hyphenated[OF Hyphenated(4) bl] assms(2)
  obtain prev nxt p s where cw: "cuts_word it"
    and le: "prev \<le> nat (rightmost_bound m W t)" "nat (rightmost_bound m W t) < nxt"
      "nxt \<le> length t"
    and mem: "(p, s) \<in> set (it (drop prev (take nxt t)))"
    and line: "line = take prev t @ p @ [hyphen]" and rest: "rest = s @ drop nxt t"
    by blast
  from mem cw have ps: "p @ s = drop prev (take nxt t)" by (auto simp: cuts_word_def)
  from le have "take prev (take nxt t) = take prev t" by (simp add: min_def)
  then have "take nxt t = take prev t @ drop prev (take nxt t)"
    by (metis append_take_drop_id)
  then have "t = (take prev t @ drop prev (take nxt t)) @ drop nxt t"
    by (metis append_take_drop_id)
  then have "t = (take prev t @ (p @ s)) @ drop nxt t" by (simp only: ps)
  with rest have t: "t = (take prev t @ p) @ rest" by (simp only: append_assoc)
  define pre where "pre = take prev t @ p"
  from t have t': "t = pre @ rest" by (simp only: pre_def)
  from line have line': "line = pre @ [hyphen]" by (simp only: pre_def append_assoc)
  show ?case
  proof (intro allI impI)
    fix lines
    assume "with_line line r' = Inr lines"
    then obtain ls where r': "r' = Inr ls" and lines: "lines = line # ls"
      by (auto simp: with_line_Inr)
    from Hyphenated(5) r' have "reassembles ls rest" by simp
    from reassembles_hyphen[OF this, of pre]
    show "reassembles lines t" unfolding lines line' t' .
  qed
next
  case (Break t b r')
  let ?b = "break_bound m W t b"
  from rstrip_decomp[of "take ?b t"] obtain sp1
    where sp1: "take ?b t = rstrip (take ?b t) @ sp1" "\<forall>c \<in> set sp1. c = space" by blast
  from lstrip_decomp[of "drop ?b t"] obtain sp2
    where sp2: "drop ?b t = sp2 @ lstrip (drop ?b t)" "\<forall>c \<in> set sp2. c = space" by blast
  have "t = take ?b t @ drop ?b t" by simp
  with sp1(1) sp2(1)
  have t: "t = rstrip (take ?b t) @ (sp1 @ sp2) @ lstrip (drop ?b t)" by (metis append_assoc)
  from sp1(2) sp2(2) have sp: "\<forall>c \<in> set (sp1 @ sp2). c = space" by auto
  define l0 where "l0 = rstrip (take ?b t)"
  define rest0 where "rest0 = lstrip (drop ?b t)"
  from t have t': "t = l0 @ (sp1 @ sp2) @ rest0" by (simp only: l0_def rest0_def)
  show ?case
  proof (intro allI impI)
    fix lines
    assume "with_line (rstrip (take ?b t)) r' = Inr lines"
    then obtain ls where r': "r' = Inr ls" and lines: "lines = rstrip (take ?b t) # ls"
      by (auto simp: with_line_Inr)
    from Break(5) r' have "reassembles ls rest0" by (simp add: rest0_def)
    from reassembles_break[OF sp this, of l0] lines[folded l0_def]
    show "reassembles lines t" unfolding t' by simp
  qed
qed

text \<open>
  Claim C4.  With a hyphenation provider that cuts the word it is given (or hyphenation
  disabled), the lines of a split cover the physical line: the text is the lines in
  order, once the spaces trimmed at each break are restored and the hyphen that a
  hyphenation cut appended is removed.  So every code point other than a trimmed space is
  in exactly one line, in order; and the splitter returns, so no text is lost without an
  error either.
\<close>

theorem no_text_dropped:
  assumes "h \<longrightarrow> cuts_word it"
  shows "(\<exists>r. split_line m it W h text = Some r) \<and>
         (\<forall>lines. split_line m it W h text = Some (Inr lines) \<longrightarrow> reassembles lines text)"
proof
  show "\<exists>r. split_line m it W h text = Some r" by (rule split_line_returns[OF assms])
  show "\<forall>lines. split_line m it W h text = Some (Inr lines) \<longrightarrow> reassembles lines text"
    using split_line_reassembles[OF _ assms, of m W "text"] by blast
qed

theorem no_text_dropped_witness:
  "cuts_word beautiful_cuts \<and>
   split_line (fixed_width 10) beautiful_cuts 50 True (ustr ''a beautiful day'') =
     Some (Inr [ustr ''a'', ustr ''beau-'', ustr ''tiful'', ustr ''day'']) \<and>
   reassembles [ustr ''a'', ustr ''beau-'', ustr ''tiful'', ustr ''day'']
     (ustr ''a beautiful day'')"
proof -
  have cw: "True \<longrightarrow> cuts_word beautiful_cuts" by (simp add: beautiful_cuts_cuts_word)
  from no_text_dropped[OF cw, of "fixed_width 10" 50 "ustr ''a beautiful day''"]
    split_a_beautiful_day
  have "reassembles [ustr ''a'', ustr ''beau-'', ustr ''tiful'', ustr ''day'']
     (ustr ''a beautiful day'')"
    by blast
  with cw split_a_beautiful_day show ?thesis by blast
qed

subsection \<open>The word splitter picks the longest prefix that fits\<close>

text \<open>
  Claim C5.  The word splitter sorts the provider's candidates by the length of the
  prefix, ascending, and searches them for the rightmost fit of prefix + hyphen.  Where
  the widths of the sorted candidates with their hyphen are non-decreasing (the
  precondition of the search), it returns a candidate that fits and whose prefix is as
  long as that of any candidate that fits, with the hyphen appended to the prefix; and it
  returns the empty prefix and the whole word if no candidate fits or there is none.
\<close>

theorem split_word_largest_fit:
  assumes "sorted (map (\<lambda>c. m (fst c @ [hyphen])) (sort_key (\<lambda>k. length (fst k)) (it word)))"
  shows "if \<exists>c \<in> set (it word). m (fst c @ [hyphen]) \<le> W
         then \<exists>p s. split_word m it word W = (p @ [hyphen], s) \<and> (p, s) \<in> set (it word) \<and>
                m (p @ [hyphen]) \<le> W \<and>
                (\<forall>c \<in> set (it word). m (fst c @ [hyphen]) \<le> W \<longrightarrow> length (fst c) \<le> length p)
         else split_word m it word W = ([], word)"
proof -
  let ?cuts = "sort_key (\<lambda>k. length (fst k)) (it word)"
  let ?key = "\<lambda>k. m (fst (?cuts ! k) @ [hyphen])"
  let ?a = "[0..<length ?cuts]"
  let ?cb = "find_rightmost ?a W ?key"
  have len: "length ?a = length ?cuts" by simp
  have le: "?cb \<le> length ?cuts" using find_rightmost_le[of ?a W ?key] by simp
  have keys: "map ?key ?a = map (\<lambda>c. m (fst c @ [hyphen])) ?cuts"
    by (rule nth_equalityI) (simp_all del: length_sort)
  with assms have sorted_keys: "sorted (map ?key ?a)" by simp
  have before: "i < ?cb" if "i < length ?cuts" and "m (fst (?cuts ! i) @ [hyphen]) \<le> W" for i
    using find_rightmost_sorted[OF sorted_keys, of i W] that by (simp del: length_sort)
  have by_length: "sorted (map (\<lambda>k. length (fst k)) ?cuts)" by (rule sorted_sort_key)
  show ?thesis
  proof (cases "\<exists>c \<in> set (it word). m (fst c @ [hyphen]) \<le> W")
    case False
    have "?cb = 0 \<or> ?cuts = []"
    proof (rule ccontr)
      assume "\<not> (?cb = 0 \<or> ?cuts = [])"
      then have pos: "0 < ?cb" by simp
      with le have idx: "?cb - 1 < length ?cuts" by simp
      from find_rightmost_fits[OF pos] idx have "m (fst (?cuts ! (?cb - 1)) @ [hyphen]) \<le> W"
        by (simp del: length_sort)
      moreover from nth_mem[OF idx] have "?cuts ! (?cb - 1) \<in> set (it word)" by simp
      ultimately show False using False by blast
    qed
    with False show ?thesis by (simp add: split_word_def Let_def)
  next
    case True
    then obtain c where c: "c \<in> set ?cuts" "m (fst c @ [hyphen]) \<le> W" by auto
    then obtain i where i: "i < length ?cuts" "?cuts ! i = c"
      by (meson in_set_conv_nth)
    from before[OF i(1)] i(2) c(2) have pos: "0 < ?cb" by simp
    with le have idx: "?cb - 1 < length ?cuts" by simp
    from i(1) have ne: "?cuts \<noteq> []" by (auto simp del: length_sort)
    let ?p = "fst (?cuts ! (?cb - 1))"
    let ?s = "snd (?cuts ! (?cb - 1))"
    from pos ne have res: "split_word m it word W = (?p @ [hyphen], ?s)"
      by (simp add: split_word_def Let_def)
    from nth_mem[OF idx] have mem: "(?p, ?s) \<in> set (it word)" by simp
    from find_rightmost_fits[OF pos] idx have fit: "m (?p @ [hyphen]) \<le> W"
      by (simp del: length_sort)
    have longest: "length (fst d) \<le> length ?p"
      if d: "d \<in> set (it word)" "m (fst d @ [hyphen]) \<le> W" for d
    proof -
      from d(1) have "d \<in> set ?cuts" by simp
      then obtain j where j: "j < length ?cuts" "?cuts ! j = d" by (meson in_set_conv_nth)
      from before[OF j(1)] j(2) d(2) have "j \<le> ?cb - 1" by simp
      with by_length idx have "map (\<lambda>k. length (fst k)) ?cuts ! j
            \<le> map (\<lambda>k. length (fst k)) ?cuts ! (?cb - 1)"
        by (simp add: sorted_iff_nth_mono del: nth_map length_sort)
      with j idx show ?thesis by (simp del: length_sort)
    qed
    from res mem fit longest True show ?thesis by auto
  qed
qed


theorem split_word_largest_fit_witness:
  "sorted (map (\<lambda>c. fixed_width 10 (fst c @ [hyphen]))
     (sort_key (\<lambda>k. length (fst k)) (beautiful_cuts (ustr ''beautiful'')))) \<and>
   split_word (fixed_width 10) beautiful_cuts (ustr ''beautiful'') 50 =
     (ustr ''beau'' @ [hyphen], ustr ''tiful'')"
proof -
  have cuts: "beautiful_cuts (ustr ''beautiful'') =
      [(ustr ''beauti'', ustr ''ful''), (ustr ''beau'', ustr ''tiful'')]"
    by (simp add: beautiful_cuts_def)
  have srt: "sorted (map (\<lambda>c. fixed_width 10 (fst c @ [hyphen]))
     (sort_key (\<lambda>k. length (fst k)) (beautiful_cuts (ustr ''beautiful''))))"
    unfolding cuts by (simp add: ustr_def fixed_width_def)
  have ex: "\<exists>c \<in> set (beautiful_cuts (ustr ''beautiful'')). fixed_width 10 (fst c @ [hyphen]) \<le> 50"
    unfolding cuts by (simp add: ustr_def fixed_width_def)
  from split_word_largest_fit[of "fixed_width 10" beautiful_cuts "ustr ''beautiful''" 50, OF srt] ex
  obtain p s where res: "split_word (fixed_width 10) beautiful_cuts (ustr ''beautiful'') 50 = (p @ [hyphen], s)"
    and mem: "(p, s) \<in> set (beautiful_cuts (ustr ''beautiful''))"
    and fit: "fixed_width 10 (p @ [hyphen]) \<le> 50"
    by (simp only: if_True) blast
  from mem fit have "p = ustr ''beau'' \<and> s = ustr ''tiful''"
    unfolding cuts by (auto simp: ustr_def fixed_width_def)
  with res srt show ?thesis by simp
qed

subsection \<open>The examples with the fixed-width font\<close>

text \<open>
  Claim C7, as the spec states it, fails: at 10 pixels a code point the line \<open>hello\<close> is 50
  pixels wide and does not fit the budget 45.  Without a hyphenation cut the splitter
  breaks both words at the rightmost fit.
\<close>

theorem hello_world_45_counterexample:
  "split_line (fixed_width 10) no_cuts 45 False (ustr ''hello world'') =
     Some (Inr [ustr ''hell'', ustr ''o'', ustr ''worl'', ustr ''d'']) \<and>
   split_line (fixed_width 10) no_cuts 45 True (ustr ''hello world'') =
     Some (Inr [ustr ''hell'', ustr ''o'', ustr ''worl'', ustr ''d'']) \<and>
   Some (Inr [ustr ''hell'', ustr ''o'', ustr ''worl'', ustr ''d''])
     \<noteq> Some (Inr [ustr ''hello'', ustr ''world'']) \<and>
   45 < fixed_width 10 (ustr ''hello'')"
  by (simp add: ustr_def eval_split eval_defs)

text \<open>
  Claim C7, amended.  With the fixed-width font of 10 pixels a code point, \<open>hello world\<close>
  splits into exactly \<open>hello\<close> and \<open>world\<close>, the space consumed at the break, under every
  budget from 50 to 59 pixels, whatever the hyphenation setting and provider; under the
  budget 45 neither word fits, and without a hyphenation cut the lines are \<open>hell\<close>, \<open>o\<close>,
  \<open>worl\<close>, \<open>d\<close>.
\<close>

theorem hello_world_lines:
  "(50 \<le> W \<and> W < 60 \<longrightarrow>
      split_line (fixed_width 10) it W h (ustr ''hello world'') =
        Some (Inr [ustr ''hello'', ustr ''world''])) \<and>
   split_line (fixed_width 10) no_cuts 45 h (ustr ''hello world'') =
     Some (Inr [ustr ''hell'', ustr ''o'', ustr ''worl'', ustr ''d''])"
proof (intro conjI impI)
  assume "50 \<le> W \<and> W < 60"
  then show "split_line (fixed_width 10) it W h (ustr ''hello world'') =
        Some (Inr [ustr ''hello'', ustr ''world''])"
    by (simp add: ustr_def eval_split eval_defs)
next
  show "split_line (fixed_width 10) no_cuts 45 h (ustr ''hello world'') =
     Some (Inr [ustr ''hell'', ustr ''o'', ustr ''worl'', ustr ''d''])"
    by (cases h) (simp_all add: ustr_def eval_split eval_defs)
qed

theorem hello_world_lines_witness:
  "(50::int) \<le> 55 \<and> (55::int) < 60 \<and>
   split_line (fixed_width 10) beautiful_cuts 55 True (ustr ''hello world'') =
     Some (Inr [ustr ''hello'', ustr ''world''])"
  using hello_world_lines[of 55 beautiful_cuts True] by simp

subsection \<open>When the splitter raises\<close>












subsection \<open>A mark at the bound\<close>

text \<open>
  Claim C6, as the spec states it, fails: in its own scenario, \<open>hi, you!\<close> where \<open>hi,\<close> fits
  the budget exactly, the comma stays on the first line, but the last line is the mark
  \<open>!\<close> alone.
\<close>

theorem line_begins_with_mark_counterexample:
  "split_line (fixed_width 10) no_cuts 30 True (ustr ''hi, you!'') =
     Some (Inr [ustr ''hi,'', ustr ''you'', ustr ''!'']) \<and>
   is_mark (hd (ustr ''!''))"
  by (simp add: ustr_def eval_split eval_defs)

text \<open>
  Claim C6, amended.  When the code point at the bound is a Mark, the line is broken as
  follows.  If the line including the mark still fits the budget, the bound is extended by
  one and the mark ends the line.  Otherwise the bound moves back to the start of the run of
  letters before the mark, so that the word goes to the next line with its mark and that
  line begins with a letter; unless the run starts the text, where the unadjusted bound is
  kept, or no letter is before the mark, where the bound stays: then the next line begins
  with the mark.  A line can therefore begin with a Mark.
  In the scenario \<open>hi, you!\<close> where \<open>hi,\<close> fits the budget exactly, the comma is kept on
  the first line and the lines are \<open>hi,\<close>, \<open>you\<close> and \<open>!\<close>.
\<close>

theorem mark_at_bound:
  assumes "text \<noteq> []" and "0 < rightmost_bound m W text"
    and "rightmost_bound m W text < int (length text)"
    and "is_mark (text ! nat (rightmost_bound m W text))"
  shows "split_line m it W h text =
           (let b = nat (rightmost_bound m W text);
                k = (if m (take (b + 1) text) \<le> W then b + 1
                     else if word_start text b = 0 then b else word_start text b)
            in map_option (with_line (rstrip (take k text)))
                 (split_line m it W h (lstrip (drop k text)))) \<and>
         (\<not> m (take (nat (rightmost_bound m W text) + 1) text) \<le> W \<and>
          0 < word_start text (nat (rightmost_bound m W text)) \<and>
          word_start text (nat (rightmost_bound m W text)) < nat (rightmost_bound m W text)
            \<longrightarrow> ascii_letters
                  (hd (lstrip (drop (word_start text (nat (rightmost_bound m W text))) text)))) \<and>
         (\<not> m (take (nat (rightmost_bound m W text) + 1) text) \<le> W \<and>
          word_start text (nat (rightmost_bound m W text)) = 0
            \<longrightarrow> is_mark (hd (lstrip (drop (nat (rightmost_bound m W text)) text)))) \<and>
         split_line (fixed_width 10) it 30 h (ustr ''hi, you!'') =
           Some (Inr [ustr ''hi,'', ustr ''you'', ustr ''!''])"
proof (intro conjI impI)
  let ?b = "nat (rightmost_bound m W text)"
  from assms(2,3) have b: "?b < length text" by simp
  from is_mark_not_letter[OF assms(4)]
  have lb: "letter_boundary m it W h text ?b = Bound ?b"
    by (simp add: letter_boundary_def)
  from assms(3) have ne: "rightmost_bound m W text \<noteq> int (length text)" by simp
  from assms(2,4) show "split_line m it W h text =
           (let b = nat (rightmost_bound m W text);
                k = (if m (take (b + 1) text) \<le> W then b + 1
                     else if word_start text b = 0 then b else word_start text b)
            in map_option (with_line (rstrip (take k text)))
                 (split_line m it W h (lstrip (drop k text))))"
    unfolding split_line_break[OF assms(1,2) ne lb] bind_prepend
    by (simp add: break_bound_def mark_boundary_def Let_def)
  {
    assume a: "\<not> m (take (?b + 1) text) \<le> W \<and> 0 < word_start text ?b \<and> word_start text ?b < ?b"
    let ?k = "word_start text ?b"
    from a b have k: "?k < length text" by simp
    from a word_start_letter[of "text" ?b] have "ascii_letters (text ! ?k)" by simp
    moreover from k have "drop ?k text = text ! ?k # drop (Suc ?k) text"
      by (simp add: Cons_nth_drop_Suc)
    ultimately show "ascii_letters (hd (lstrip (drop ?k text)))"
      by (simp add: lstrip_def letter_not_space)
  }
  {
    assume "\<not> m (take (?b + 1) text) \<le> W \<and> word_start text ?b = 0"
    from b have "drop ?b text = text ! ?b # drop (Suc ?b) text"
      by (simp add: Cons_nth_drop_Suc)
    moreover from assms(4) have "text ! ?b \<noteq> space"
      by (auto simp: is_mark_def MARKS_def space_def)
    ultimately show "is_mark (hd (lstrip (drop ?b text)))"
      using assms(4) by (simp add: lstrip_def)
  }
  show "split_line (fixed_width 10) it 30 h (ustr ''hi, you!'') =
           Some (Inr [ustr ''hi,'', ustr ''you'', ustr ''!''])"
    by (simp add: ustr_def eval_split eval_defs)
qed

theorem mark_at_bound_witness:
  "ustr ''you!'' \<noteq> [] \<and> 0 < rightmost_bound (fixed_width 10) 30 (ustr ''you!'') \<and>
   rightmost_bound (fixed_width 10) 30 (ustr ''you!'') < int (length (ustr ''you!'')) \<and>
   is_mark (ustr ''you!'' ! nat (rightmost_bound (fixed_width 10) 30 (ustr ''you!''))) \<and>
   split_line (fixed_width 10) no_cuts 30 True (ustr ''you!'') =
     map_option (with_line (ustr ''you'')) (split_line (fixed_width 10) no_cuts 30 True (ustr ''!''))"
proof -
  have u: "ustr ''you!'' = [121, 111, 117, 33]" by (simp add: ustr_def)
  have rb: "rightmost_bound (fixed_width 10) 30 [121, 111, 117, 33] = 3"
    by (simp add: eval_defs)
  have a1: "ustr ''you!'' \<noteq> []" by (simp add: u)
  have a2: "0 < rightmost_bound (fixed_width 10) 30 (ustr ''you!'')" by (simp add: u rb)
  have a3: "rightmost_bound (fixed_width 10) 30 (ustr ''you!'') < int (length (ustr ''you!''))"
    by (simp add: u rb)
  have a4: "is_mark (ustr ''you!'' ! nat (rightmost_bound (fixed_width 10) 30 (ustr ''you!'')))"
    by (simp add: u rb is_mark_def MARKS_def)
  have k: "(if fixed_width 10 (take (3 + 1) [121, 111, 117, 33]) \<le> 30 then 3 + 1
            else if word_start [121, 111, 117, 33] 3 = 0 then 3
                 else word_start [121, 111, 117, 33] 3) = (3::nat)"
    by (simp add: fixed_width_def word_start_unfold ascii_letters_def)
  have strip: "rstrip (take 3 [121, 111, 117, 33]) = ustr ''you''"
    "lstrip (drop 3 [121, 111, 117, 33]) = ustr ''!''"
    by (simp_all add: rstrip_def lstrip_def space_def ustr_def)
  from mark_at_bound[OF a1 a2 a3 a4, of no_cuts True]
  have "split_line (fixed_width 10) no_cuts 30 True (ustr ''you!'') =
     map_option (with_line (ustr ''you'')) (split_line (fixed_width 10) no_cuts 30 True (ustr ''!''))"
    unfolding u rb Let_def nat_numeral k strip by (rule conjunct1)
  with a1 a2 a3 a4 show ?thesis by blast
qed

subsection \<open>Configuration that the constructor does not check\<close>

text \<open>With a budget of 0 or less and a font of positive widths no non-empty text has a bound.\<close>

lemma rightmost_bound_nonpositive_budget:
  assumes "positive_widths m" and "W \<le> 0"
  shows "rightmost_bound m W text \<le> 0"
proof -
  define r where "r = find_rightmost [0..<length text] W (\<lambda>k. m (take k text))"
  have rb: "rightmost_bound m W text = (if m (take r text) > W then int r - 1 else int r)"
    by (simp add: rightmost_bound_def Let_def r_def)
  have le: "r \<le> length text"
    using find_rightmost_le[of "[0..<length text]" W "\<lambda>k. m (take k text)"]
    by (simp add: r_def)
  have fits: "m (take (r - 1) text) \<le> W" if "0 < r"
    using find_rightmost_fits[of "[0..<length text]" W "\<lambda>k. m (take k text)"] that le
    by (simp add: r_def)
  have wide: "W < m s" if "s \<noteq> []" for s
  proof -
    from assms(1) that have "0 < m s" unfolding positive_widths_def by blast
    with assms(2) show ?thesis by simp
  qed
  have r1: "r \<le> 1"
  proof (rule ccontr)
    assume "\<not> r \<le> 1"
    then have two: "2 \<le> r" by simp
    with le have "2 \<le> length text" by linarith
    with two have "take (r - 1) text \<noteq> []" by (cases "text") auto
    from wide[OF this] fits two show False by simp
  qed
  show ?thesis
  proof (cases "r = 1")
    case True
    with le have "take r text \<noteq> []" by (cases "text") auto
    from wide[OF this] True show ?thesis by (simp add: rb)
  next
    case False
    with r1 have "r = 0" by simp
    then show ?thesis by (simp add: rb)
  qed
qed

lemma cut_loop_nonpositive_budget:
  assumes "positive_widths m" and "W \<le> 0"
  shows "cut_loop m it W h lines res =
           (if list_all (\<lambda>l. l = []) lines then Some (Inr res) else Some (Inl LayoutError))"
proof (induction lines)
  case Nil
  show ?case by simp
next
  case (Cons line lines)
  show ?case
  proof (cases "line = []")
    case True
    with Cons show ?thesis by (simp add: split_line_Nil)
  next
    case False
    from split_line_fail[OF False rightmost_bound_nonpositive_budget[OF assms]] False
    show ?thesis by simp
  qed
qed

text \<open>
  Claim C9, as the spec states it, fails: the constructor has no check of its own.  A Text
  with \<open>max_width = -5\<close> and one with \<open>size = 0\<close> are constructed, with no line, from the
  empty string.
\<close>

theorem invalid_configuration_counterexample:
  "Text_init (\<lambda>f s. fixed_width 10) no_cuts
     (\<lambda>l f s c. \<lparr>width = 10 * int (length l), height = s\<rparr>)
     [] ''mono'' 12 (Some (- 5)) START (None :: nat option) 0 True =
     Some (Inr \<lparr>font = ''mono'', size_attr = 12, alignment = START, color = None, spacing = 0,
                 hyphenation = True, pre_rendered = []\<rparr>) \<and>
   Text_init (\<lambda>f s. fixed_width 10) no_cuts
     (\<lambda>l f s c. \<lparr>width = 10 * int (length l), height = s\<rparr>)
     [] ''mono'' 0 None START (None :: nat option) 0 True =
     Some (Inr \<lparr>font = ''mono'', size_attr = 0, alignment = START, color = None, spacing = 0,
                 hyphenation = True, pre_rendered = []\<rparr>)"
  by (simp add: Text_init_def cut_def splitlines_def)

text \<open>
  Claim C9, amended.  The constructor of a Text layout does not validate its configuration.
  With a font of positive widths, \<open>max_width \<le> 0\<close> is rejected only while the lines are
  computed, by the LayoutError of the line splitter at the first physical line that is not
  empty; if every physical line is empty the layout is constructed, with no line.  Without
  a width budget the physical lines are rendered as they are, whatever the size.
\<close>

theorem invalid_configuration_not_checked:
  assumes "positive_widths (truetype fnt sz)" and "W \<le> 0"
  shows "Text_init truetype it render_text text fnt sz (Some W) algn col spc h =
           (if list_all (\<lambda>l. l = []) (splitlines text)
            then Some (Inr \<lparr>font = fnt, size_attr = sz, alignment = algn, color = col,
                             spacing = spc, hyphenation = h, pre_rendered = []\<rparr>)
            else Some (Inl LayoutError)) \<and>
         Text_init truetype it render_text text fnt sz None algn col spc h =
           Some (Inr \<lparr>font = fnt, size_attr = sz, alignment = algn, color = col,
                       spacing = spc, hyphenation = h,
                       pre_rendered = map (\<lambda>line. render_text line fnt sz col) (splitlines text)\<rparr>)"
  by (simp add: Text_init_def cut_def cut_loop_nonpositive_budget[OF assms])

theorem invalid_configuration_not_checked_witness:
  "positive_widths (fixed_width 10) \<and> (0::int) \<le> 0 \<and>
   Text_init (\<lambda>f s. fixed_width 10) no_cuts
     (\<lambda>l f s c. \<lparr>width = 10 * int (length l), height = s\<rparr>)
     (ustr ''a'') ''mono'' 12 (Some 0) START (None :: nat option) 0 True = Some (Inl LayoutError)"
proof -
  have pw: "positive_widths ((\<lambda>f s. fixed_width 10) ''mono'' (12::int))"
    by (simp add: fixed_width_positive)
  have w: "(0::int) \<le> 0" by simp
  from invalid_configuration_not_checked[of "\<lambda>f s. fixed_width 10" "''mono''" 12 0, OF pw w,
      of no_cuts "\<lambda>l f s c. \<lparr>width = 10 * int (length l), height = s\<rparr>" "ustr ''a''"
        START "None :: nat option" 0 True]
  have "Text_init (\<lambda>f s. fixed_width 10) no_cuts
     (\<lambda>l f s c. \<lparr>width = 10 * int (length l), height = s\<rparr>)
     (ustr ''a'') ''mono'' 12 (Some 0) START (None :: nat option) 0 True = Some (Inl LayoutError)"
    by (simp add: splitlines_def ustr_def linebreak_def)
  with pw w show ?thesis by simp
qed

end
